theory Spec2Isabelle
  imports
    Complex_Main
    "HOL-Library.Log_Nat"
    "HOL-Library.Product_Lexorder"
    "HOL-Library.List_Lexorder"
begin

section \<open>Python strings\<close>

text \<open>
  A Python \<^verbatim>\<open>str\<close> is a sequence of Unicode code points: \<^verbatim>\<open>len\<close> counts code
  points and \<^verbatim>\<open><\<close> on strings is the lexicographic order of the code points. A
  character is therefore modelled by its code point, a natural number, and a string by
  the list of its code points.
\<close>

type_synonym pychar = nat
type_synonym pystr = "pychar list"


text \<open>
  The characters for which \<^verbatim>\<open>str.isspace\<close> holds; \<^verbatim>\<open>str.strip()\<close> and the
  class \<^verbatim>\<open>\s\<close> of a \<^verbatim>\<open>str\<close> pattern both use this set.
\<close>

definition is_space :: "pychar \<Rightarrow> bool" where
  "is_space c \<longleftrightarrow>
     (9 \<le> c \<and> c \<le> 13) \<or> (28 \<le> c \<and> c \<le> 32) \<or> c = 133 \<or> c = 160 \<or> c = 5760 \<or>
     (8192 \<le> c \<and> c \<le> 8202) \<or> c = 8232 \<or> c = 8233 \<or> c = 8239 \<or> c = 8287 \<or> c = 12288"

definition strip :: "pystr \<Rightarrow> pystr" where
  "strip s = rev (dropWhile is_space (rev (dropWhile is_space s)))"

text \<open>\<^verbatim>\<open>s.replace(c, "")\<close> for a one-character \<^verbatim>\<open>c\<close>.\<close>

definition remove_all :: "pychar \<Rightarrow> pystr \<Rightarrow> pystr" where
  "remove_all c s = filter (\<lambda>x. x \<noteq> c) s"

text \<open>
  \<^verbatim>\<open>xs[:n]\<close>: a negative \<^verbatim>\<open>n\<close> counts from the end, so \<^verbatim>\<open>xs[:-1]\<close> drops the
  last element.
\<close>

definition slice_to :: "'a list \<Rightarrow> int \<Rightarrow> 'a list" where
  "slice_to xs n = (if 0 \<le> n then take (nat n) xs else take (length xs - nat (- n)) xs)"

text \<open>\<^verbatim>\<open>xs[1:-1]\<close>; it is empty for strings of length at most two.\<close>

definition slice_1_m1 :: "'a list \<Rightarrow> 'a list" where
  "slice_1_m1 xs = butlast (tl xs)"

section \<open>Entry extractor\<close>

definition KANNADA_RANGE :: "pychar \<times> pychar" where
  "KANNADA_RANGE = (3200, 3327)"

definition QUOTES :: "pychar list" where
  "QUOTES = [39, 34]"

definition startswith_any :: "pystr \<Rightarrow> pychar list \<Rightarrow> bool" where
  "startswith_any s cs \<longleftrightarrow> (case s of [] \<Rightarrow> False | c # _ \<Rightarrow> c \<in> set cs)"

definition endswith_any :: "pystr \<Rightarrow> pychar list \<Rightarrow> bool" where
  "endswith_any s cs \<longleftrightarrow> (case rev s of [] \<Rightarrow> False | c # _ \<Rightarrow> c \<in> set cs)"

text \<open>The \<^verbatim>\<open>for ch in raw\<close> loop of \<^verbatim>\<open>extract_word\<close>, which breaks at the first
  character outside the range.\<close>

fun leading_run :: "pystr \<Rightarrow> pystr" where
  "leading_run [] = []"
| "leading_run (ch # rest) =
     (if fst KANNADA_RANGE \<le> ch \<and> ch \<le> snd KANNADA_RANGE then ch # leading_run rest else [])"

definition extract_word :: "pystr \<Rightarrow> pystr option" where
  "extract_word raw =
     (let raw1 = (if startswith_any raw QUOTES \<and> endswith_any raw QUOTES
                  then slice_1_m1 raw else raw);
          raw2 = remove_all 8205 (remove_all 8204 (strip raw1))
      in if raw2 = [] then None
         else (let word = strip (leading_run raw2)
               in if length word < 2 then None else Some word))"

subsection \<open>The entry pattern\<close>

text \<open>
  \<^verbatim>\<open>ENTRY_PATTERN = re.compile(r"^\s*entry:\s*(.+)$")\<close>, applied with \<^verbatim>\<open>match\<close>.
  The first \<^verbatim>\<open>\s*\<close> is greedy and is followed by the letter \<^verbatim>\<open>e\<close>, so it takes
  every leading space. The second \<^verbatim>\<open>\s*\<close> is greedy too and gives characters back
  one at a time until \<^verbatim>\<open>(.+)$\<close> matches what is left: a non-empty run without a
  newline that reaches the end of the string or the newline closing it.
\<close>

definition entry_colon :: pystr where
  "entry_colon = [101, 110, 116, 114, 121, 58]"

definition group_at :: "pystr \<Rightarrow> pystr option" where
  "group_at s =
     (let body = takeWhile (\<lambda>c. c \<noteq> 10) s; rest = dropWhile (\<lambda>c. c \<noteq> 10) s
      in if body \<noteq> [] \<and> (rest = [] \<or> rest = [10]) then Some body else None)"

fun try_splits :: "nat \<Rightarrow> pystr \<Rightarrow> pystr option" where
  "try_splits 0 s = group_at s"
| "try_splits (Suc k) s =
     (case group_at (drop (Suc k) s) of Some g \<Rightarrow> Some g | None \<Rightarrow> try_splits k s)"

definition entry_match :: "pystr \<Rightarrow> pystr option" where
  "entry_match line =
     (let rest = dropWhile is_space line
      in if take 6 rest = entry_colon
         then (let after = drop 6 rest
               in try_splits (length (takeWhile is_space after)) after)
         else None)"

section \<open>Frequency counter\<close>

text \<open>
  A \<^verbatim>\<open>Counter\<close> is a dictionary, which keeps its keys in insertion order: an
  association list with distinct keys. \<^verbatim>\<open>counter[word] += 1\<close> updates the entry in
  place, or appends the word with count 1.
\<close>

type_synonym counter = "(pystr \<times> int) list"

definition counter_incr :: "counter \<Rightarrow> pystr \<Rightarrow> counter" where
  "counter_incr cnt w =
     (if w \<in> fst ` set cnt
      then map (\<lambda>(k, v). if k = w then (k, v + 1) else (k, v)) cnt
      else cnt @ [(w, 1)])"

definition count_line :: "counter \<Rightarrow> pystr \<Rightarrow> counter" where
  "count_line cnt line =
     (case entry_match line of
        None \<Rightarrow> cnt
      | Some raw \<Rightarrow>
          (case extract_word raw of
             None \<Rightarrow> cnt
           | Some word \<Rightarrow> counter_incr cnt word))"

text \<open>The argument is the list of lines the file object yields.\<close>

definition load_word_counts :: "pystr list \<Rightarrow> counter" where
  "load_word_counts lines = foldl count_line [] lines"

section \<open>Seed loader\<close>

text \<open>\<^verbatim>\<open>s.rsplit(" ", 1)\<close>: split at the last U+0020, if there is one.\<close>

definition rsplit_space :: "pystr \<Rightarrow> pystr list" where
  "rsplit_space s =
     (if 32 \<in> set s
      then [rev (tl (dropWhile (\<lambda>c. c \<noteq> 32) (rev s))), rev (takeWhile (\<lambda>c. c \<noteq> 32) (rev s))]
      else [s])"

text \<open>
  \<^verbatim>\<open>str.splitlines()\<close>: a line ends at LF, VT, FF, CR, CR LF, FS, GS, RS, NEL, LS
  or PS; the terminators are dropped and a trailing terminator opens no further line.
\<close>

definition is_linebreak :: "pychar \<Rightarrow> bool" where
  "is_linebreak c \<longleftrightarrow>
     (10 \<le> c \<and> c \<le> 13) \<or> (28 \<le> c \<and> c \<le> 30) \<or> c = 133 \<or> c = 8232 \<or> c = 8233"

fun splitlines_from :: "pystr \<Rightarrow> pystr \<Rightarrow> pystr list" where
  "splitlines_from cur [] = (if cur = [] then [] else [cur])"
| "splitlines_from cur [c] =
     (if is_linebreak c then [cur] else [cur @ [c]])"
| "splitlines_from cur (c # d # cs) =
     (if c = 13 \<and> d = 10 then cur # splitlines_from [] cs
      else if is_linebreak c then cur # splitlines_from [] (d # cs)
      else splitlines_from (cur @ [c]) (d # cs))"

definition splitlines :: "pystr \<Rightarrow> pystr list" where
  "splitlines s = splitlines_from [] s"

text \<open>
  The body of the loop of \<^verbatim>\<open>clean_existing_words\<close>, on the pair of its two
  accumulators \<^verbatim>\<open>words\<close> and \<^verbatim>\<open>seen\<close>; every \<^verbatim>\<open>continue\<close> returns the pair
  unchanged.
\<close>

definition clean_line :: "pystr list \<times> pystr set \<Rightarrow> pystr \<Rightarrow> pystr list \<times> pystr set" where
  "clean_line st line =
     (let stripped = strip line
      in if stripped = [] \<or> startswith_any stripped [35] then st
         else (let parts = rsplit_space stripped
               in if length parts \<noteq> 2 then st
                  else (let word = strip (hd parts)
                        in if word = [] then st
                           else if list_ex (\<lambda>ch. ch < fst KANNADA_RANGE \<or> ch > snd KANNADA_RANGE) word
                           then st
                           else if length word < 2 then st
                           else if word \<in> snd st then st
                           else (fst st @ [word], insert word (snd st)))))"

text \<open>
  The argument is the text of the file at \<^verbatim>\<open>path\<close> as \<^verbatim>\<open>read_text\<close> returns
  it, or \<open>None\<close> when the file does not exist.
\<close>

definition clean_existing_words :: "pystr option \<Rightarrow> pystr list" where
  "clean_existing_words file =
     (case file of
        None \<Rightarrow> []
      | Some text \<Rightarrow> fst (foldl clean_line ([], {}) (splitlines text)))"

section \<open>Ranker\<close>

text \<open>
  Tuples and strings compare lexicographically, so the sort key
  \<^verbatim>\<open>(-item[1], len(item[0]), item[0])\<close> is a triple in the lexicographic product
  order; \<open>sort_key\<close> is stable, as \<^verbatim>\<open>list.sort\<close> is.
\<close>

definition filter_ranked_words ::
    "counter \<Rightarrow> pystr set \<Rightarrow> int \<Rightarrow> int \<Rightarrow> int \<Rightarrow> pystr list" where
  "filter_ranked_words cnt banned keep min_len max_len =
     (let candidates =
            filter (\<lambda>(word, count).
                \<not> word \<in> banned \<and>
                \<not> (int (length word) < min_len \<or> int (length word) > max_len)) cnt;
          ranked = sort_key (\<lambda>(word, count). (- count, length word, word)) candidates
      in map fst (slice_to ranked keep))"

section \<open>Floating point\<close>

text \<open>
  A Python \<^verbatim>\<open>float\<close> is an IEEE 754 binary64 number. A finite one is modelled by
  the rational number it denotes; the sign of a zero is not represented, since no
  operation below tells the two zeros apart. Every operation rounds the exact result
  to the nearest double, ties to the even significand: 53 significant bits, and below
  \<open>2 powi (- 1022)\<close> the fixed spacing \<open>2 powi (- 1074)\<close> of the subnormal numbers.
\<close>

datatype py_error = OverflowError | ZeroDivisionError | OSError

text \<open>\<^verbatim>\<open>round(x)\<close> of a float: the nearest integer, a tie going to the even one.\<close>

definition half_even :: "rat \<Rightarrow> int" where
  "half_even y =
     (let f = \<lfloor>y\<rfloor>; d = y - of_int f
      in if d < 1 / 2 then f else if 1 / 2 < d then f + 1 else if even f then f else f + 1)"

text \<open>The binary exponent of a positive rational \<open>x\<close>: the \<open>e\<close> with
  \<open>2 powi e \<le> x < 2 powi (e + 1)\<close>.\<close>

definition ilog2 :: "rat \<Rightarrow> int" where
  "ilog2 x =
     (if 1 \<le> x then bitlen \<lfloor>x\<rfloor> - 1 else - bitlen (\<lceil>1 / x\<rceil> - 1))"

definition round_double :: "rat \<Rightarrow> rat" where
  "round_double x =
     (if x = 0 then 0
      else (let q = max (ilog2 \<bar>x\<bar> - 52) (- 1074)
            in of_int (half_even (x / 2 powi q)) * 2 powi q))"

text \<open>
  A result that rounds to \<open>2 powi 1024\<close> or beyond is out of range. The conversion of an
  \<^verbatim>\<open>int\<close> and the division of two \<^verbatim>\<open>int\<close>s then raise \<^verbatim>\<open>OverflowError\<close>; a
  float operation yields an infinity instead. In \<^verbatim>\<open>assign_frequencies\<close> the value
  of every float operation flows into \<^verbatim>\<open>round\<close>, which raises
  \<^verbatim>\<open>OverflowError\<close> on an infinity, so the model raises it where the range is left.
\<close>

definition to_double :: "rat \<Rightarrow> py_error + rat" where
  "to_double x =
     (let r = round_double x in if \<bar>r\<bar> < 2 ^ 1024 then Inr r else Inl OverflowError)"

text \<open>\<^verbatim>\<open>a / b\<close> on two \<^verbatim>\<open>int\<close>s: the correctly rounded quotient.\<close>

definition true_div :: "int \<Rightarrow> int \<Rightarrow> py_error + rat" where
  "true_div a b = (if b = 0 then Inl ZeroDivisionError else to_double (of_int a / of_int b))"

section \<open>Frequency assigner\<close>

text \<open>
  The body of the loop of \<^verbatim>\<open>assign_frequencies\<close> at index \<open>idx\<close>, where \<open>n\<close> is
  \<^verbatim>\<open>len(words)\<close>. In \<^verbatim>\<open>frac * freq_span\<close> and in \<^verbatim>\<open>start - ...\<close> the
  \<^verbatim>\<open>int\<close> operand is converted to a float first.
\<close>

definition freq_at :: "int \<Rightarrow> int \<Rightarrow> int \<Rightarrow> nat \<Rightarrow> nat \<Rightarrow> py_error + int" where
  "freq_at start minimum freq_span n idx =
     (case true_div (int idx) (int n - 1) of
        Inl e \<Rightarrow> Inl e
      | Inr fraction \<Rightarrow>
     (case to_double (of_int freq_span) of
        Inl e \<Rightarrow> Inl e
      | Inr span_f \<Rightarrow>
     (case to_double (fraction * span_f) of
        Inl e \<Rightarrow> Inl e
      | Inr scaled \<Rightarrow>
     (case to_double (of_int start) of
        Inl e \<Rightarrow> Inl e
      | Inr start_f \<Rightarrow>
     (case to_double (start_f - scaled) of
        Inl e \<Rightarrow> Inl e
      | Inr diff \<Rightarrow> Inr (max minimum (half_even diff)))))))"

fun freq_loop :: "(nat \<Rightarrow> py_error + int) \<Rightarrow> nat list \<Rightarrow> py_error + int list" where
  "freq_loop f [] = Inr []"
| "freq_loop f (idx # rest) =
     (case f idx of
        Inl e \<Rightarrow> Inl e
      | Inr freq \<Rightarrow>
          (case freq_loop f rest of
             Inl e \<Rightarrow> Inl e
           | Inr freq_values \<Rightarrow> Inr (freq # freq_values)))"

definition assign_frequencies :: "'w list \<Rightarrow> int \<Rightarrow> int \<Rightarrow> py_error + int list" where
  "assign_frequencies words start minimum =
     (if words = [] then Inr []
      else if length words = 1 then Inr [start]
      else (let freq_span = start - minimum
            in freq_loop (freq_at start minimum freq_span (length words)) [0..<length words]))"

section \<open>Writer\<close>





text \<open>
  The destination is a file that holds a text or does not exist (\<open>None\<close>). What the
  operating system may refuse is a parameter of the model: opening the file for writing,
  or one of the \<^verbatim>\<open>write\<close> calls after a number of them went through.
  \<^verbatim>\<open>path.open("w")\<close> creates the file or empties it, and every \<^verbatim>\<open>write\<close>
  appends to it. Each \<^verbatim>\<open>write\<close> is taken to reach the file when it is called; with
  the buffer of the file object a failing run leaves some shorter prefix of the same
  text, and in either case the file was emptied when it was opened.
\<close>

datatype io_fault = NoFault | OpenFails | WriteFails nat

fun write_all :: "io_fault \<Rightarrow> pystr list \<Rightarrow> pystr \<Rightarrow> (py_error + unit) \<times> pystr" where
  "write_all fault [] content = (Inr (), content)"
| "write_all fault (chunk # rest) content =
     (case fault of
        WriteFails 0 \<Rightarrow> (Inl OSError, content)
      | WriteFails (Suc k) \<Rightarrow> write_all (WriteFails k) rest (content @ chunk)
      | _ \<Rightarrow> write_all fault rest (content @ chunk))"


section \<open>The pipeline\<close>

record args =
  target_count :: int
  min_length :: int
  max_length :: int
  start_frequency :: int
  min_frequency :: int
  seed_limit :: int

text \<open>The values \<^verbatim>\<open>parse_args\<close> returns when no option is given.\<close>

definition default_args :: args where
  "default_args =
     \<lparr>target_count = 10000, min_length = 2, max_length = 16,
      start_frequency = 5000, min_frequency = 200, seed_limit = 600\<rparr>"

text \<open>
  The local variables of \<^verbatim>\<open>main\<close> between the two loaders and the frequency
  assigner; \<open>warned\<close> records that the warning was printed and \<open>keep\<close> is the
  argument of that name passed to \<^verbatim>\<open>filter_ranked_words\<close>.
\<close>

record plan =
  seed_words :: "pystr list"
  seed_set :: "pystr set"
  required :: int
  warned :: bool
  keep :: int
  ranked_words :: "pystr list"
  total_words :: "pystr list"

definition main_plan :: "args \<Rightarrow> counter \<Rightarrow> pystr list \<Rightarrow> plan" where
  "main_plan a cnt existing_words =
     (let seeds = slice_to existing_words (seed_limit a);
          sset = set (filter (\<lambda>word. int (length word) \<ge> min_length a) seeds);
          required0 = target_count a - int (card sset);
          req = (if required0 \<le> 0 then 0 else required0);
          ranked = filter_ranked_words cnt sset (max req 0) (min_length a) (max_length a);
          merged = seeds @ filter (\<lambda>word. \<not> word \<in> sset) ranked
      in \<lparr>seed_words = seeds, seed_set = sset, required = req, warned = (required0 \<le> 0),
          keep = max req 0, ranked_words = ranked,
          total_words = slice_to merged (target_count a)\<rparr>)"


section \<open>Properties of the entry extractor\<close>

lemma leading_run_takeWhile:
  "leading_run s = takeWhile (\<lambda>ch. 3200 \<le> ch \<and> ch \<le> 3327) s"
  by (induction s) (simp_all add: KANNADA_RANGE_def)

lemma kannada_not_space: "3200 \<le> c \<Longrightarrow> c \<le> 3327 \<Longrightarrow> \<not> is_space c"
  by (simp add: is_space_def)

lemma strip_no_space:
  assumes "\<forall>c\<in>set s. \<not> is_space c"
  shows "strip s = s"
proof -
  have keep: "dropWhile is_space xs = xs" if "\<forall>c\<in>set xs. \<not> is_space c" for xs
    using that by (cases xs) simp_all
  from assms show ?thesis
    by (simp add: strip_def keep)
qed

lemma strip_leading_run: "strip (leading_run s) = leading_run s"
  by (rule strip_no_space)
    (auto simp: leading_run_takeWhile kannada_not_space dest!: set_takeWhileD)

text \<open>
  The extractor in one expression: the test for an empty cleaned value and the second
  \<^verbatim>\<open>strip\<close> change nothing.
\<close>

lemma extract_word_cases:
  "extract_word raw =
     (let w = leading_run (remove_all 8205 (remove_all 8204 (strip
                (if startswith_any raw QUOTES \<and> endswith_any raw QUOTES
                 then slice_1_m1 raw else raw))))
      in if length w < 2 then None else Some w)"
  by (auto simp: extract_word_def Let_def strip_leading_run)

text \<open>
  Claim C10. A value that starts with either quote character and ends with either quote
  character loses its first and its last character, also when the two quotes differ;
  the trimming, the removal of the zero-width marks and the extraction of the leading
  run then work on what is between them.
\<close>

theorem extract_word_unquotes_mixed:
  assumes "q1 \<in> set QUOTES" and "q2 \<in> set QUOTES"
  shows "extract_word (q1 # mid @ [q2]) =
     (let w = leading_run (remove_all 8205 (remove_all 8204 (strip mid)))
      in if length w < 2 then None else Some w)"
  using assms
  by (simp add: extract_word_cases startswith_any_def endswith_any_def slice_1_m1_def)

theorem extract_word_unquotes_mixed_witness:
  "39 \<in> set QUOTES \<and> 34 \<in> set QUOTES \<and>
   extract_word [39, 3246, 3240, 3270, 34] = Some [3246, 3240, 3270]"
  using extract_word_unquotes_mixed [of 39 34 "[3246, 3240, 3270]"]
  by (simp add: QUOTES_def strip_def is_space_def remove_all_def KANNADA_RANGE_def)

text \<open>
  Claim C9, as stated, fails: the captured value \<^verbatim>\<open>"\<close>U+0CAE U+0CA8 U+0CC6\<^verbatim>\<open>"\<close>
  begins with a quote, so its own leading run of script characters is empty, and the
  value U+200C U+0CAE U+0CA8 U+0CC6 begins with a zero-width non-joiner; the extractor
  yields the three-character token from both, and the counter counts it.
\<close>

theorem short_raw_run_yields_token:
  "entry_match [101, 110, 116, 114, 121, 58, 32, 34, 3246, 3240, 3270, 34, 10]
     = Some [34, 3246, 3240, 3270, 34] \<and>
   length (leading_run [34, 3246, 3240, 3270, 34]) < 2 \<and>
   extract_word [34, 3246, 3240, 3270, 34] = Some [3246, 3240, 3270] \<and>
   count_line [] [101, 110, 116, 114, 121, 58, 32, 34, 3246, 3240, 3270, 34, 10]
     = [([3246, 3240, 3270], 1)] \<and>
   length (leading_run [8204, 3246, 3240, 3270]) < 2 \<and>
   extract_word [8204, 3246, 3240, 3270] = Some [3246, 3240, 3270]"
proof -
  have m: "entry_match [101, 110, 116, 114, 121, 58, 32, 34, 3246, 3240, 3270, 34, 10]
     = Some [34, 3246, 3240, 3270, 34]"
    by (simp add: entry_match_def is_space_def entry_colon_def group_at_def)
  have e: "extract_word [34, 3246, 3240, 3270, 34] = Some [3246, 3240, 3270]"
    by (simp add: extract_word_def startswith_any_def endswith_any_def slice_1_m1_def QUOTES_def
        strip_def is_space_def remove_all_def KANNADA_RANGE_def)
  have z: "extract_word [8204, 3246, 3240, 3270] = Some [3246, 3240, 3270]"
    by (simp add: extract_word_def startswith_any_def endswith_any_def slice_1_m1_def QUOTES_def
        strip_def is_space_def remove_all_def KANNADA_RANGE_def)
  have c: "count_line [] [101, 110, 116, 114, 121, 58, 32, 34, 3246, 3240, 3270, 34, 10]
     = [([3246, 3240, 3270], 1)]"
    by (simp add: count_line_def m e counter_incr_def)
  show ?thesis
    using m e z c by (simp add: KANNADA_RANGE_def)
qed

text \<open>
  Claim C9, amended. What decides is the cleaned value: the captured value without its
  quotes when both ends are quoted, trimmed, and without the zero-width marks. When the
  leading run of script characters of the cleaned value is shorter than 2 (in particular
  when the cleaned value begins with a character outside the range), the extractor
  returns \<open>None\<close> and the counter is left as it was; neither function can raise.
\<close>

theorem short_cleaned_run_is_skipped:
  assumes "entry_match line = Some raw"
    and "length (leading_run (remove_all 8205 (remove_all 8204 (strip
            (if startswith_any raw QUOTES \<and> endswith_any raw QUOTES
             then slice_1_m1 raw else raw))))) < 2"
  shows "extract_word raw = None \<and> count_line cnt line = cnt"
proof -
  from assms(2) have "extract_word raw = None"
    by (simp add: extract_word_cases Let_def)
  with assms(1) show ?thesis
    by (simp add: count_line_def)
qed

theorem short_cleaned_run_is_skipped_witness:
  "entry_match [101, 110, 116, 114, 121, 58, 32, 120, 3246, 3240, 10] = Some [120, 3246, 3240] \<and>
   extract_word [120, 3246, 3240] = None \<and>
   count_line [([3246, 3240], 1)] [101, 110, 116, 114, 121, 58, 32, 120, 3246, 3240, 10]
     = [([3246, 3240], 1)]"
proof -
  have m: "entry_match [101, 110, 116, 114, 121, 58, 32, 120, 3246, 3240, 10] = Some [120, 3246, 3240]"
    by (simp add: entry_match_def is_space_def entry_colon_def group_at_def)
  have s: "length (leading_run (remove_all 8205 (remove_all 8204 (strip
            (if startswith_any [120, 3246, 3240] QUOTES \<and> endswith_any [120, 3246, 3240] QUOTES
             then slice_1_m1 [120, 3246, 3240] else [120, 3246, 3240]))))) < 2"
    by (simp add: startswith_any_def QUOTES_def strip_def is_space_def remove_all_def
        KANNADA_RANGE_def)
  from short_cleaned_run_is_skipped [OF m s, of "[([3246, 3240], 1)]"] m
  show ?thesis by simp
qed

section \<open>Properties of the loaders and of the ranker\<close>

lemma slice_to_zero: "slice_to xs 0 = []"
  by (simp add: slice_to_def)

lemma length_slice_to: "0 \<le> n \<Longrightarrow> int (length (slice_to xs n)) \<le> n"
  by (simp add: slice_to_def)

lemma slice_to_all: "int (length xs) \<le> n \<Longrightarrow> slice_to xs n = xs"
  by (simp add: slice_to_def)

lemma set_slice_to: "set (slice_to xs n) \<subseteq> set xs"
  by (auto simp: slice_to_def dest: in_set_takeD)

lemma distinct_slice_to: "distinct xs \<Longrightarrow> distinct (slice_to xs n)"
  by (simp add: slice_to_def)

lemma distinct_map_slice_to: "distinct (map f xs) \<Longrightarrow> distinct (map f (slice_to xs n))"
  by (simp add: slice_to_def take_map [symmetric] del: take_map)

text \<open>The two accumulators of the seed loader stay in step, and the list stays free of
  repetitions and of words shorter than two characters.\<close>

lemma clean_line_inv:
  assumes "snd st = set (fst st)" and "distinct (fst st)" and "\<forall>w\<in>set (fst st). 2 \<le> length w"
  shows "snd (clean_line st line) = set (fst (clean_line st line)) \<and>
         distinct (fst (clean_line st line)) \<and>
         (\<forall>w\<in>set (fst (clean_line st line)). 2 \<le> length w)"
  using assms by (auto simp: clean_line_def Let_def)

lemma foldl_clean_line_inv:
  assumes "snd st = set (fst st)" and "distinct (fst st)" and "\<forall>w\<in>set (fst st). 2 \<le> length w"
  shows "distinct (fst (foldl clean_line st ls)) \<and>
         (\<forall>w\<in>set (fst (foldl clean_line st ls)). 2 \<le> length w)"
  using assms
proof (induction ls arbitrary: st)
  case Nil
  then show ?case by simp
next
  case (Cons l ls)
  from clean_line_inv [OF Cons.prems, of l]
  have "snd (clean_line st l) = set (fst (clean_line st l))"
    and "distinct (fst (clean_line st l))"
    and "\<forall>w\<in>set (fst (clean_line st l)). 2 \<le> length w"
    by blast+
  from Cons.IH [OF this] show ?case by simp
qed

lemma distinct_clean_existing_words: "distinct (clean_existing_words asset)"
  using foldl_clean_line_inv [of "([], {})"]
  by (cases asset) (simp_all add: clean_existing_words_def)

lemma length_clean_existing_words:
  "w \<in> set (clean_existing_words asset) \<Longrightarrow> 2 \<le> length w"
  using foldl_clean_line_inv [of "([], {})"]
  by (cases asset) (simp_all add: clean_existing_words_def)

lemma map_fst_counter_incr_hit:
  "map fst (map (\<lambda>(k, v). if k = w then (k, v + (1::int)) else (k, v)) cnt) = map fst cnt"
  by (induction cnt) (simp_all add: case_prod_beta)

lemma distinct_counter_incr:
  assumes "distinct (map fst cnt)"
  shows "distinct (map fst (counter_incr cnt w))"
proof (cases "w \<in> fst ` set cnt")
  case True
  then have "map fst (counter_incr cnt w) = map fst cnt"
    by (simp only: counter_incr_def if_True map_fst_counter_incr_hit)
  with assms show ?thesis by (simp only:)
next
  case False
  then have "map fst (counter_incr cnt w) = map fst cnt @ [w]"
    by (simp add: counter_incr_def)
  with False assms show ?thesis by simp
qed

lemma distinct_count_line:
  "distinct (map fst cnt) \<Longrightarrow> distinct (map fst (count_line cnt line))"
  by (simp add: count_line_def distinct_counter_incr split: option.splits)

lemma distinct_foldl_count_line:
  "distinct (map fst cnt) \<Longrightarrow> distinct (map fst (foldl count_line cnt ls))"
  by (induction ls arbitrary: cnt) (simp_all add: distinct_count_line)

lemma distinct_load_word_counts: "distinct (map fst (load_word_counts ls))"
  by (simp add: load_word_counts_def distinct_foldl_count_line)

lemma distinct_filter_ranked_words:
  assumes "distinct (map fst cnt)"
  shows "distinct (filter_ranked_words cnt banned k lo hi)"
proof -
  have "distinct (map fst (sort_key f (filter P cnt)))"
    for f :: "pystr \<times> int \<Rightarrow> int \<times> nat \<times> pystr" and P
    using assms by (simp add: distinct_map distinct_map_filter inj_on_def)
  then show ?thesis
    by (simp add: filter_ranked_words_def Let_def distinct_map_slice_to)
qed

lemma set_filter_ranked_words:
  "w \<in> set (filter_ranked_words cnt banned k lo hi) \<Longrightarrow>
     w \<notin> banned \<and> lo \<le> int (length w) \<and> int (length w) \<le> hi"
  using set_slice_to by (fastforce simp: filter_ranked_words_def Let_def)

lemma length_filter_ranked_words:
  "0 \<le> k \<Longrightarrow> int (length (filter_ranked_words cnt banned k lo hi)) \<le> k"
  by (simp add: filter_ranked_words_def Let_def length_slice_to)

subsection \<open>The local variables of the pipeline\<close>

lemma seed_words_main_plan:
  "seed_words (main_plan a cnt existing) = slice_to existing (seed_limit a)"
  by (simp add: main_plan_def Let_def)

lemma seed_set_main_plan:
  "seed_set (main_plan a cnt existing) =
     set (filter (\<lambda>word. int (length word) \<ge> min_length a) (seed_words (main_plan a cnt existing)))"
  by (simp add: main_plan_def Let_def)

lemma keep_main_plan:
  "keep (main_plan a cnt existing) =
     max (target_count a - int (card (seed_set (main_plan a cnt existing)))) 0"
  by (simp add: main_plan_def Let_def max_def)

lemma ranked_words_main_plan:
  "ranked_words (main_plan a cnt existing) =
     filter_ranked_words cnt (seed_set (main_plan a cnt existing))
       (keep (main_plan a cnt existing)) (min_length a) (max_length a)"
  by (simp add: main_plan_def Let_def)

lemma total_words_main_plan:
  "total_words (main_plan a cnt existing) =
     slice_to (seed_words (main_plan a cnt existing) @
        filter (\<lambda>word. \<not> word \<in> seed_set (main_plan a cnt existing))
          (ranked_words (main_plan a cnt existing))) (target_count a)"
  by (simp add: main_plan_def Let_def)

lemma distinct_main_plan:
  assumes "distinct (map fst cnt)" and "distinct existing"
  shows "distinct (total_words (main_plan a cnt existing))"
proof -
  define p where "p = main_plan a cnt existing"
  have d1: "distinct (seed_words p)"
    unfolding p_def seed_words_main_plan using assms(2) by (rule distinct_slice_to)
  have d2: "distinct (ranked_words p)"
    unfolding p_def ranked_words_main_plan using assms(1) by (rule distinct_filter_ranked_words)
  have disj: "w \<notin> set (seed_words p)" if "w \<in> set (ranked_words p)" for w
  proof
    assume s: "w \<in> set (seed_words p)"
    from that have "w \<notin> seed_set p" and "min_length a \<le> int (length w)"
      unfolding p_def ranked_words_main_plan by (auto dest: set_filter_ranked_words)
    moreover from s \<open>min_length a \<le> int (length w)\<close> have "w \<in> seed_set p"
      unfolding p_def seed_set_main_plan by simp
    ultimately show False by simp
  qed
  have "distinct (seed_words p @ filter (\<lambda>word. \<not> word \<in> seed_set p) (ranked_words p))"
    using d1 d2 disj by auto
  then have "distinct (slice_to (seed_words p @
      filter (\<lambda>word. \<not> word \<in> seed_set p) (ranked_words p)) (target_count a))"
    by (rule distinct_slice_to)
  then show ?thesis
    by (simp only: p_def total_words_main_plan)
qed

lemma seed_text:
  "clean_existing_words (Some [3205, 3238, 3265, 32, 53, 48, 48, 48]) = [[3205, 3238, 3265]]"
  by (simp add: clean_existing_words_def splitlines_def is_linebreak_def clean_line_def strip_def
      is_space_def rsplit_space_def startswith_any_def KANNADA_RANGE_def Let_def)

section \<open>Properties of the pipeline\<close>


text \<open>
  Claim C6. The words of the final output sequence are pairwise distinct, whatever the
  source lines, the seed file and the configuration.
\<close>

theorem output_words_distinct:
  "distinct (total_words (main_plan a (load_word_counts source_lines) (clean_existing_words asset)))"
  by (rule distinct_main_plan [OF distinct_load_word_counts distinct_clean_existing_words])

text \<open>
  Claim C8. With a target count that is not negative, the final output sequence has at
  most \<open>target_count\<close> words.
\<close>

theorem output_length_le_target_count:
  "0 \<le> target_count a \<Longrightarrow>
     int (length (total_words (main_plan a cnt existing))) \<le> target_count a"
  by (simp add: total_words_main_plan length_slice_to)

theorem output_length_le_target_count_witness:
  "0 \<le> target_count (default_args\<lparr>target_count := 1\<rparr>) \<and>
   int (length (total_words (main_plan (default_args\<lparr>target_count := 1\<rparr>)
      [([3207, 3238, 3265], 9)] [[3205, 3238, 3265], [3246, 3240, 3270]]))) \<le> 1 \<and>
   total_words (main_plan (default_args\<lparr>target_count := 1\<rparr>)
      [([3207, 3238, 3265], 9)] [[3205, 3238, 3265], [3246, 3240, 3270]]) = [[3205, 3238, 3265]]"
proof -
  have t: "(0::int) \<le> target_count (default_args\<lparr>target_count := 1\<rparr>)"
    by (simp add: default_args_def)
  have w: "total_words (main_plan (default_args\<lparr>target_count := 1\<rparr>)
      [([3207, 3238, 3265], 9)] [[3205, 3238, 3265], [3246, 3240, 3270]]) = [[3205, 3238, 3265]]"
    by (simp add: total_words_main_plan seed_words_main_plan default_args_def slice_to_def)
  from output_length_le_target_count [OF t] t w show ?thesis
    by simp
qed

text \<open>
  Claim C1, as stated, fails. The seed file holds the one valid word U+0C85 U+0CA6 U+0CC1;
  with \<open>seed_limit = 0\<close> the slice \<^verbatim>\<open>existing_words[:0]\<close> is empty, so nothing is
  pinned and the output is the ranked word alone.
\<close>

theorem seed_limit_zero_drops_seed:
  "clean_existing_words (Some [3205, 3238, 3265, 32, 53, 48, 48, 48]) = [[3205, 3238, 3265]] \<and>
   seed_words (main_plan (default_args\<lparr>seed_limit := 0\<rparr>) [([3207, 3238, 3265], 9)]
      (clean_existing_words (Some [3205, 3238, 3265, 32, 53, 48, 48, 48]))) = [] \<and>
   total_words (main_plan (default_args\<lparr>seed_limit := 0\<rparr>) [([3207, 3238, 3265], 9)]
      (clean_existing_words (Some [3205, 3238, 3265, 32, 53, 48, 48, 48]))) = [[3207, 3238, 3265]]"
proof -
  let ?a = "default_args\<lparr>seed_limit := 0\<rparr>"
  let ?p = "main_plan ?a [([3207, 3238, 3265], 9)] [[3205, 3238, 3265]]"
  have a: "seed_limit ?a = 0" "target_count ?a = 10000" "min_length ?a = 2" "max_length ?a = 16"
    by (simp_all add: default_args_def)
  have s: "seed_words ?p = []"
    by (simp add: seed_words_main_plan a slice_to_def)
  have ss: "seed_set ?p = {}"
    by (simp add: seed_set_main_plan s)
  have k: "keep ?p = 10000"
    by (simp add: keep_main_plan ss a)
  have r: "ranked_words ?p = [[3207, 3238, 3265]]"
    by (simp add: ranked_words_main_plan ss k a filter_ranked_words_def slice_to_def)
  have t: "total_words ?p = [[3207, 3238, 3265]]"
    by (simp add: total_words_main_plan s ss r a slice_to_def)
  show ?thesis
    by (simp only: seed_text s t)
qed

text \<open>
  Claim C1, amended. When \<open>seed_limit\<close> is 0 no existing word is pinned: the seed prefix
  is empty and the output is the list of ranked candidates, at most \<open>target_count\<close> of
  them, with no word excluded.
\<close>

theorem seed_limit_zero_output:
  assumes "seed_limit a = 0"
  shows "seed_words (main_plan a cnt existing) = [] \<and>
         total_words (main_plan a cnt existing) =
           filter_ranked_words cnt {} (max (target_count a) 0) (min_length a) (max_length a)"
proof -
  define p where "p = main_plan a cnt existing"
  have s: "seed_words p = []"
    unfolding p_def by (simp add: seed_words_main_plan assms slice_to_zero)
  have ss: "seed_set p = {}"
    unfolding p_def seed_set_main_plan using s by (simp add: p_def)
  have k: "keep p = max (target_count a) 0"
    unfolding p_def keep_main_plan using ss by (simp add: p_def)
  have r: "ranked_words p =
      filter_ranked_words cnt {} (max (target_count a) 0) (min_length a) (max_length a)"
    unfolding p_def ranked_words_main_plan using ss k by (simp add: p_def)
  have len: "int (length (ranked_words p)) \<le> max (target_count a) 0"
    unfolding r by (rule length_filter_ranked_words) simp
  have "total_words p = slice_to (ranked_words p) (target_count a)"
    unfolding p_def total_words_main_plan using s ss by (simp add: p_def)
  also have "\<dots> = ranked_words p"
  proof (cases "0 \<le> target_count a")
    case True
    with len show ?thesis by (intro slice_to_all) simp
  next
    case False
    with len have "ranked_words p = []" by simp
    then show ?thesis by (simp add: slice_to_def)
  qed
  finally show ?thesis
    using s r by (simp add: p_def)
qed

theorem seed_limit_zero_output_witness:
  "seed_limit (default_args\<lparr>seed_limit := 0, target_count := 1\<rparr>) = 0 \<and>
   seed_words (main_plan (default_args\<lparr>seed_limit := 0, target_count := 1\<rparr>)
      [([3207, 3238, 3265], 9), ([3246, 3240, 3270], 5)] [[3205, 3238, 3265]]) = [] \<and>
   total_words (main_plan (default_args\<lparr>seed_limit := 0, target_count := 1\<rparr>)
      [([3207, 3238, 3265], 9), ([3246, 3240, 3270], 5)] [[3205, 3238, 3265]])
     = [[3207, 3238, 3265]]"
proof -
  have z: "seed_limit (default_args\<lparr>seed_limit := 0, target_count := 1\<rparr>) = 0"
    by simp
  have f: "filter_ranked_words [([3207, 3238, 3265], 9), ([3246, 3240, 3270], 5)] {}
      (max (target_count (default_args\<lparr>seed_limit := 0, target_count := 1\<rparr>)) 0)
      (min_length (default_args\<lparr>seed_limit := 0, target_count := 1\<rparr>))
      (max_length (default_args\<lparr>seed_limit := 0, target_count := 1\<rparr>)) = [[3207, 3238, 3265]]"
    by (simp add: filter_ranked_words_def default_args_def slice_to_def less_eq_prod_def)
  from seed_limit_zero_output [OF z, of "[([3207, 3238, 3265], 9), ([3246, 3240, 3270], 5)]"
      "[[3205, 3238, 3265]]"] z f
  show ?thesis by (simp only: simp_thms)
qed

text \<open>
  Claim C2, as stated, fails. The quota is computed from \<^verbatim>\<open>len(seed_set)\<close>, and the
  set holds only the seed words of at least \<open>min_length\<close> characters: with
  \<open>min_length = 4\<close>, the three-character seed word is pinned but not counted, and the
  ranker is asked for 5 words where the claim gives 4.
\<close>

theorem quota_skips_short_seed_words:
  "seed_words (main_plan (default_args\<lparr>target_count := 5, min_length := 4\<rparr>) []
      (clean_existing_words (Some [3205, 3238, 3265, 32, 53, 48, 48, 48]))) = [[3205, 3238, 3265]] \<and>
   keep (main_plan (default_args\<lparr>target_count := 5, min_length := 4\<rparr>) []
      (clean_existing_words (Some [3205, 3238, 3265, 32, 53, 48, 48, 48]))) = 5 \<and>
   max (target_count (default_args\<lparr>target_count := 5, min_length := 4\<rparr>) -
        int (length (seed_words (main_plan (default_args\<lparr>target_count := 5, min_length := 4\<rparr>) []
      (clean_existing_words (Some [3205, 3238, 3265, 32, 53, 48, 48, 48])))))) 0 = 4"
proof -
  let ?a = "default_args\<lparr>target_count := 5, min_length := 4\<rparr>"
  let ?p = "main_plan ?a [] [[3205, 3238, 3265]]"
  have a: "seed_limit ?a = 600" "target_count ?a = 5" "min_length ?a = 4"
    by (simp_all add: default_args_def)
  have s: "seed_words ?p = [[3205, 3238, 3265]]"
    by (simp add: seed_words_main_plan a slice_to_def)
  have ss: "seed_set ?p = {}"
    by (simp add: seed_set_main_plan s a)
  have k: "keep ?p = 5"
    by (simp add: keep_main_plan ss a)
  show ?thesis
    by (simp add: seed_text s k a)
qed

text \<open>
  Claim C2, amended. The number of ranked candidates requested from the ranker is
  \<open>max (target_count - n) 0\<close>, where \<open>n\<close> is the number of words of the seed prefix that
  have at least \<open>min_length\<close> characters; with \<open>min_length \<le> 2\<close> every seed word counts
  and \<open>n\<close> is the length of the seed prefix.
\<close>

theorem ranker_quota:
  "keep (main_plan a cnt (clean_existing_words asset)) =
     max (target_count a - int (length (filter (\<lambda>word. min_length a \<le> int (length word))
            (seed_words (main_plan a cnt (clean_existing_words asset)))))) 0 \<and>
   (min_length a \<le> 2 \<longrightarrow>
      keep (main_plan a cnt (clean_existing_words asset)) =
        max (target_count a - int (length (seed_words (main_plan a cnt (clean_existing_words asset))))) 0)"
proof -
  define p where "p = main_plan a cnt (clean_existing_words asset)"
  have d: "distinct (seed_words p)"
    unfolding p_def seed_words_main_plan by (rule distinct_slice_to [OF distinct_clean_existing_words])
  then have c: "card (seed_set p) =
      length (filter (\<lambda>word. min_length a \<le> int (length word)) (seed_words p))"
    unfolding p_def seed_set_main_plan by (intro distinct_card distinct_filter)
  have k: "keep p = max (target_count a - int (card (seed_set p))) 0"
    unfolding p_def by (rule keep_main_plan)
  have long: "2 \<le> length w" if "w \<in> set (seed_words p)" for w
    using that set_slice_to [of "clean_existing_words asset" "seed_limit a"]
    unfolding p_def seed_words_main_plan by (auto intro: length_clean_existing_words)
  have "filter (\<lambda>word. min_length a \<le> int (length word)) (seed_words p) = seed_words p"
    if "min_length a \<le> 2"
  proof (rule filter_True, rule ballI)
    fix w assume "w \<in> set (seed_words p)"
    from long [OF this] that show "min_length a \<le> int (length w)" by simp
  qed
  with k c show ?thesis
    by (simp add: p_def)
qed

theorem ranker_quota_witness:
  "min_length default_args \<le> 2 \<and>
   keep (main_plan default_args [] (clean_existing_words (Some [3205, 3238, 3265, 32, 53, 48, 48, 48])))
     = max (target_count default_args - int (length (seed_words (main_plan default_args []
          (clean_existing_words (Some [3205, 3238, 3265, 32, 53, 48, 48, 48])))))) 0 \<and>
   keep (main_plan default_args [] (clean_existing_words (Some [3205, 3238, 3265, 32, 53, 48, 48, 48])))
     = 9999"
proof -
  have m: "min_length default_args \<le> 2"
    by (simp add: default_args_def)
  have s: "seed_words (main_plan default_args [] [[3205, 3238, 3265]]) = [[3205, 3238, 3265]]"
    by (simp add: seed_words_main_plan default_args_def slice_to_def)
  have t: "target_count default_args = 10000"
    by (simp add: default_args_def)
  from ranker_quota [of default_args "[]" "Some [3205, 3238, 3265, 32, 53, 48, 48, 48]"] m
  show ?thesis
    by (simp add: seed_text s t)
qed

section \<open>Properties of the rounding functions\<close>

lemma half_even_of_int: "half_even (of_int n) = n"
  by (simp add: half_even_def)

lemma half_even_lower: "\<lfloor>y\<rfloor> \<le> half_even y"
  by (simp add: half_even_def Let_def)

lemma half_even_upper: "half_even y \<le> \<lfloor>y\<rfloor> + 1"
  by (simp add: half_even_def Let_def)

lemma half_even_mono:
  assumes "x \<le> y"
  shows "half_even x \<le> half_even y"
proof (cases "\<lfloor>x\<rfloor> = \<lfloor>y\<rfloor>")
  case True
  with assms have "x - of_int \<lfloor>x\<rfloor> \<le> y - of_int \<lfloor>y\<rfloor>" by simp
  with True show ?thesis
    by (auto simp: half_even_def Let_def)
next
  case False
  with assms have "\<lfloor>x\<rfloor> + 1 \<le> \<lfloor>y\<rfloor>"
    using floor_mono [of x y] by linarith
  with half_even_upper [of x] half_even_lower [of y] show ?thesis
    by linarith
qed

lemma half_even_minus: "half_even (- y) = - half_even y"
proof (cases "y = of_int \<lfloor>y\<rfloor>")
  case True
  then obtain n where "y = of_int n" ..
  then show ?thesis
    by (simp add: half_even_of_int flip: of_int_minus)
next
  case False
  then have "\<lceil>y\<rceil> = \<lfloor>y\<rfloor> + 1"
    by (simp add: ceiling_altdef)
  then have f: "\<lfloor>- y\<rfloor> = - \<lfloor>y\<rfloor> - 1"
    by (simp add: ceiling_def)
  show ?thesis
    by (auto simp: half_even_def Let_def f)
qed

lemma ilog2_bounds:
  assumes "0 < x"
  shows "2 powi (ilog2 x) \<le> x \<and> x < 2 powi (ilog2 x + 1)"
proof (cases "1 \<le> x")
  case True
  define n where "n = \<lfloor>x\<rfloor>"
  have n1: "1 \<le> n" using True by (simp add: n_def)
  then have b: "2 ^ nat (bitlen n - 1) \<le> n" "n < 2 ^ nat (bitlen n)"
    using bitlen_bounds [of n] by simp_all
  have bl: "1 \<le> bitlen n"
    using n1 by (simp add: bitlen_alt_def)
  have e: "ilog2 x = bitlen n - 1"
    using True by (simp add: ilog2_def n_def)
  have "(2::rat) powi (bitlen n - 1) = of_int (2 ^ nat (bitlen n - 1))"
    using bl by (simp add: power_int_def)
  also have "\<dots> \<le> of_int n" using b(1) by (simp only: of_int_le_iff)
  also have "\<dots> \<le> x" by (simp add: n_def)
  finally have lo: "2 powi (ilog2 x) \<le> x" by (simp add: e)
  have "x < of_int (n + 1)" using floor_correct [of x] by (simp add: n_def)
  also have "\<dots> \<le> of_int (2 ^ nat (bitlen n))"
    using b(2) by (simp only: of_int_le_iff; simp)
  also have "\<dots> = (2::rat) powi (bitlen n)"
    using bl by (simp add: power_int_def)
  finally have "x < 2 powi (ilog2 x + 1)" by (simp add: e)
  with lo show ?thesis ..
next
  case False
  define m where "m = \<lceil>1 / x\<rceil>"
  define k where "k = bitlen (m - 1)"
  from False assms have y1: "1 < 1 / x" by simp
  then have m2: "2 \<le> m" unfolding m_def by linarith
  then have b: "2 ^ nat (k - 1) \<le> m - 1" "m - 1 < 2 ^ nat k"
    using bitlen_bounds [of "m - 1"] by (simp_all add: k_def)
  have k1: "1 \<le> k"
    using m2 by (simp add: k_def bitlen_alt_def)
  have e: "ilog2 x = - k"
    using False by (simp add: ilog2_def m_def k_def)
  have "1 / x \<le> of_int m" by (simp add: m_def)
  also have "\<dots> \<le> of_int (2 ^ nat k)"
    using b(2) by (simp only: of_int_le_iff; simp)
  finally have "1 / x \<le> 2 ^ nat k" by simp
  then have "1 / 2 ^ nat k \<le> x"
    using assms by (simp add: field_simps)
  moreover have "(2::rat) powi (- k) = 1 / 2 ^ nat k"
    using k1 by (simp add: power_int_def field_simps)
  ultimately have lo: "2 powi (ilog2 x) \<le> x" by (simp add: e)
  have "(of_int (2 ^ nat (k - 1)) :: rat) \<le> of_int (m - 1)"
    using b(1) by (simp only: of_int_le_iff)
  also have "\<dots> < 1 / x" unfolding m_def by linarith
  finally have "2 ^ nat (k - 1) < 1 / x" by simp
  then have "x < 1 / 2 ^ nat (k - 1)"
    using assms by (simp add: field_simps)
  moreover have "(2::rat) powi (- k + 1) = 1 / 2 ^ nat (k - 1)"
    using k1 by (simp add: power_int_def field_simps)
  ultimately have "x < 2 powi (ilog2 x + 1)" by (simp add: e)
  with lo show ?thesis ..
qed

lemma ilog2_unique:
  assumes "0 < x" and "2 powi e \<le> x" and "x < 2 powi (e + 1)"
  shows "ilog2 x = e"
proof -
  from ilog2_bounds [OF assms(1)] have b: "2 powi (ilog2 x) \<le> x" "x < 2 powi (ilog2 x + 1)"
    by simp_all
  have "(2::rat) powi e < 2 powi (ilog2 x + 1)" using assms(2) b(2) by simp
  then have 1: "e < ilog2 x + 1"
    by (metis not_less one_less_numeral_iff power_int_increasing semiring_norm(76) less_imp_le)
  have "(2::rat) powi (ilog2 x) < 2 powi (e + 1)" using assms(3) b(1) by simp
  then have 2: "ilog2 x < e + 1"
    by (metis not_less one_less_numeral_iff power_int_increasing semiring_norm(76) less_imp_le)
  from 1 2 show ?thesis by simp
qed

subsection \<open>Rounding to a double\<close>

lemma two_powi_nonneg: "0 \<le> k \<Longrightarrow> (2::rat) powi k = of_int (2 ^ nat k)"
  by (simp add: power_int_def)

lemma two_powi_less_exp: "(2::rat) powi a < 2 powi b \<Longrightarrow> a < b"
  by (metis not_less one_less_numeral_iff power_int_increasing semiring_norm(76) less_imp_le)

lemma two_powi_mono: "a \<le> b \<Longrightarrow> (2::rat) powi a \<le> 2 powi b"
  by (rule power_int_increasing) simp_all

lemma grid_upper:
  assumes "x \<le> 2 powi t" and "q \<le> t"
  shows "of_int (half_even (x / 2 powi q)) * 2 powi q \<le> (2::rat) powi t"
proof -
  have p: "(0::rat) < 2 powi q" by simp
  have "x / 2 powi q \<le> 2 powi t / 2 powi q"
    using assms(1) p by (simp add: divide_right_mono)
  also have "\<dots> = 2 powi (t - q)" by (simp add: power_int_diff)
  also have "\<dots> = of_int (2 ^ nat (t - q))"
    using assms(2) by (simp add: two_powi_nonneg)
  finally have "half_even (x / 2 powi q) \<le> 2 ^ nat (t - q)"
    using half_even_mono half_even_of_int by metis
  then have "(of_int (half_even (x / 2 powi q)) :: rat) \<le> of_int (2 ^ nat (t - q))"
    by (simp only: of_int_le_iff)
  then have "of_int (half_even (x / 2 powi q)) * 2 powi q \<le> of_int (2 ^ nat (t - q)) * (2::rat) powi q"
    using p by (simp only: mult_le_cancel_right_pos)
  also have "of_int (2 ^ nat (t - q)) * (2::rat) powi q = 2 powi (t - q) * 2 powi q"
    using assms(2) by (simp add: two_powi_nonneg)
  also have "\<dots> = 2 powi t" by (simp flip: power_int_add)
  finally show ?thesis .
qed

lemma grid_lower:
  assumes "2 powi t \<le> x" and "q \<le> t"
  shows "(2::rat) powi t \<le> of_int (half_even (x / 2 powi q)) * 2 powi q"
proof -
  have p: "(0::rat) < 2 powi q" by simp
  have "of_int (2 ^ nat (t - q)) = (2::rat) powi (t - q)"
    using assms(2) by (simp add: two_powi_nonneg)
  also have "\<dots> = 2 powi t / 2 powi q" by (simp add: power_int_diff)
  also have "\<dots> \<le> x / 2 powi q"
    using assms(1) p by (simp add: divide_right_mono)
  finally have "2 ^ nat (t - q) \<le> half_even (x / 2 powi q)"
    using half_even_mono half_even_of_int by metis
  then have "(of_int (2 ^ nat (t - q)) :: rat) \<le> of_int (half_even (x / 2 powi q))"
    by (simp only: of_int_le_iff)
  then have le: "of_int (2 ^ nat (t - q)) * (2::rat) powi q \<le> of_int (half_even (x / 2 powi q)) * 2 powi q"
    using p by (simp only: mult_le_cancel_right_pos)
  have "(2::rat) powi t = 2 powi (t - q) * 2 powi q" by (simp flip: power_int_add)
  also have "\<dots> = of_int (2 ^ nat (t - q)) * (2::rat) powi q"
    using assms(2) by (simp add: two_powi_nonneg)
  also note le
  finally show ?thesis .
qed

lemma grid_exact:
  assumes "q \<le> k"
  shows "of_int (half_even (of_int m * 2 powi k / 2 powi q)) * 2 powi q = of_int m * (2::rat) powi k"
proof -
  have "of_int m * (2::rat) powi k / 2 powi q = of_int m * 2 powi (k - q)"
    by (simp add: power_int_diff)
  also have "\<dots> = of_int (m * 2 ^ nat (k - q))"
    using assms by (simp add: two_powi_nonneg)
  finally have "of_int (half_even (of_int m * 2 powi k / 2 powi q)) * (2::rat) powi q
      = of_int (m * 2 ^ nat (k - q)) * 2 powi q"
    by (simp only: half_even_of_int)
  also have "\<dots> = of_int m * (2 powi (k - q) * 2 powi q)"
    using assms by (simp add: two_powi_nonneg)
  also have "\<dots> = of_int m * 2 powi k" by (simp flip: power_int_add)
  finally show ?thesis .
qed

lemma round_double_eq:
  assumes "x \<noteq> 0" and "2 powi e \<le> \<bar>x\<bar>" and "\<bar>x\<bar> < 2 powi (e + 1)"
  shows "round_double x =
     of_int (half_even (x / 2 powi (max (e - 52) (- 1074)))) * 2 powi (max (e - 52) (- 1074))"
proof -
  from assms have "ilog2 \<bar>x\<bar> = e" by (intro ilog2_unique) simp_all
  with assms(1) show ?thesis by (simp add: round_double_def Let_def)
qed

lemma round_double_zero: "round_double 0 = 0"
  by (simp add: round_double_def)

lemma round_double_minus: "round_double (- x) = - round_double x"
  by (simp add: round_double_def Let_def half_even_minus)

lemma round_double_mono_pos:
  assumes "0 < x" and "x \<le> y"
  shows "round_double x \<le> round_double y"
proof -
  define ex where "ex = ilog2 x"
  define ey where "ey = ilog2 y"
  define qx where "qx = max (ex - 52) (- 1074)"
  define qy where "qy = max (ey - 52) (- 1074)"
  from assms have y0: "0 < y" by simp
  have bx: "2 powi ex \<le> x" "x < 2 powi (ex + 1)"
    using ilog2_bounds [OF assms(1)] by (simp_all add: ex_def)
  have bdy: "2 powi ey \<le> y" "y < 2 powi (ey + 1)"
    using ilog2_bounds [OF y0] by (simp_all add: ey_def)
  have rx: "round_double x = of_int (half_even (x / 2 powi qx)) * 2 powi qx"
    using assms(1) by (simp add: round_double_def Let_def qx_def ex_def)
  have ry: "round_double y = of_int (half_even (y / 2 powi qy)) * 2 powi qy"
    using y0 by (simp add: round_double_def Let_def qy_def ey_def)
  have "(2::rat) powi ex < 2 powi (ey + 1)"
    using bx(1) assms(2) bdy(2) by simp
  then have exy: "ex \<le> ey" using two_powi_less_exp [of ex "ey + 1"] by simp
  show ?thesis
  proof (cases "qx = qy")
    case True
    have "x / 2 powi qy \<le> y / 2 powi qy"
      using assms(2) by (simp add: divide_right_mono)
    then have "half_even (x / 2 powi qy) \<le> half_even (y / 2 powi qy)"
      by (rule half_even_mono)
    then have "(of_int (half_even (x / 2 powi qy)) :: rat) \<le> of_int (half_even (y / 2 powi qy))"
      by (simp only: of_int_le_iff)
    then show ?thesis
      unfolding rx ry True by (simp add: mult_right_mono)
  next
    case False
    with exy have lt: "qx < qy" and qy: "qy = ey - 52" and ee: "ex + 1 \<le> ey"
      by (auto simp: qx_def qy_def)
    define t where "t = max (ex + 1) qx"
    have t: "qx \<le> t" "ex + 1 \<le> t" "t \<le> ey"
      using lt qy ee by (auto simp: t_def)
    have "x \<le> 2 powi t"
      using bx(2) two_powi_mono [OF t(2)] by simp
    from grid_upper [OF this t(1)] have "round_double x \<le> 2 powi t"
      by (simp only: rx)
    also have "\<dots> \<le> 2 powi ey" by (rule two_powi_mono [OF t(3)])
    also have "\<dots> \<le> round_double y"
      unfolding ry by (rule grid_lower [OF bdy(1)]) (simp add: qy)
    finally show ?thesis .
  qed
qed

lemma round_double_nonneg:
  assumes "0 \<le> x"
  shows "0 \<le> round_double x"
proof -
  have "0 \<le> x / 2 powi q" for q :: int using assms by simp
  then have "0 \<le> half_even (x / 2 powi q)" for q :: int
    using half_even_mono [of 0 "x / 2 powi q"] half_even_of_int [of 0] by simp
  then show ?thesis
    by (simp add: round_double_def Let_def)
qed

lemma round_double_mono:
  assumes "x \<le> y"
  shows "round_double x \<le> round_double y"
proof -
  consider "0 < x" | "x \<le> 0" "0 \<le> y" | "y < 0" by linarith
  then show ?thesis
  proof cases
    case 1
    then show ?thesis using assms by (rule round_double_mono_pos)
  next
    case 2
    from 2(1) have "0 \<le> round_double (- x)" by (intro round_double_nonneg) simp
    then have "round_double x \<le> 0" by (simp add: round_double_minus)
    also have "0 \<le> round_double y" using 2(2) by (rule round_double_nonneg)
    finally show ?thesis .
  next
    case 3
    with assms have "round_double (- y) \<le> round_double (- x)"
      by (intro round_double_mono_pos) simp_all
    then show ?thesis by (simp add: round_double_minus)
  qed
qed

lemma round_double_grid:
  assumes "\<bar>m\<bar> < 2 ^ 53" and "- 1074 \<le> k"
  shows "round_double (of_int m * 2 powi k) = of_int m * 2 powi k"
proof (cases "m = 0")
  case True
  then show ?thesis by (simp add: round_double_zero)
next
  case False
  define x :: rat where "x = of_int m * 2 powi k"
  have x0: "x \<noteq> 0" using False by (simp add: x_def)
  then have ax: "0 < \<bar>x\<bar>" by simp
  define e where "e = ilog2 \<bar>x\<bar>"
  have "2 powi e \<le> \<bar>x\<bar>" using ilog2_bounds [OF ax] by (simp add: e_def)
  also have "\<bar>x\<bar> = of_int \<bar>m\<bar> * 2 powi k"
    by (simp add: x_def abs_mult)
  also have "\<dots> < of_int (2 ^ 53) * 2 powi k"
    using assms(1) by (simp only: mult_less_cancel_right_pos zero_less_power_int zero_less_numeral of_int_less_iff)
  also have "\<dots> = 2 powi (53 + k)"
    by (simp add: power_int_add)
  finally have "e < 53 + k" by (rule two_powi_less_exp)
  with assms(2) have "max (e - 52) (- 1074) \<le> k" by simp
  from grid_exact [OF this, of m] x0 show ?thesis
    by (simp add: round_double_def Let_def x_def e_def)
qed

lemma round_double_two_powi: "- 1074 \<le> k \<Longrightarrow> round_double (2 powi k) = 2 powi k"
  using round_double_grid [of 1 k] by simp

lemma round_double_of_int:
  assumes "\<bar>n\<bar> \<le> 2 ^ 53"
  shows "round_double (of_int n) = of_int n"
proof (cases "\<bar>n\<bar> < 2 ^ 53")
  case True
  from round_double_grid [OF True, of 0] show ?thesis by simp
next
  case False
  with assms have "n = 2 ^ 53 \<or> n = - (2 ^ 53)" by linarith
  then show ?thesis
    using round_double_two_powi [of 53] by (auto simp: round_double_minus)
qed

lemma round_double_bound:
  assumes "\<bar>x\<bar> \<le> 2 powi k" and "- 1074 \<le> k"
  shows "\<bar>round_double x\<bar> \<le> 2 powi k"
proof -
  from assms(1) have "x \<le> 2 powi k" and "- (2 powi k) \<le> x" by linarith+
  then have "round_double x \<le> round_double (2 powi k)"
    and "round_double (- (2 powi k)) \<le> round_double x"
    by (simp_all only: round_double_mono)
  then show ?thesis
    by (simp add: round_double_minus round_double_two_powi [OF assms(2)] abs_le_iff)
qed

section \<open>Properties of the frequency assigner\<close>

lemma round_double_one: "round_double 1 = 1"
  using round_double_two_powi [of 0] by simp

lemma to_double_Inr: "to_double x = Inr r \<Longrightarrow> r = round_double x"
  by (auto simp: to_double_def Let_def split: if_splits)

lemma to_double_in_range:
  assumes "\<bar>x\<bar> \<le> 2 powi k" and "- 1074 \<le> k" and "k < 1024"
  shows "to_double x = Inr (round_double x)"
proof -
  have "\<bar>round_double x\<bar> \<le> 2 powi k" using assms(1,2) by (rule round_double_bound)
  also have "(2::rat) powi k < 2 powi 1024"
    using assms(3) by (intro power_int_strict_increasing) simp_all
  finally have "\<bar>round_double x\<bar> < 2 ^ 1024" by (simp only: power_int_numeral)
  then show ?thesis by (simp only: to_double_def Let_def if_True)
qed

lemma to_double_of_int:
  assumes "\<bar>n\<bar> \<le> 2 ^ 53"
  shows "to_double (of_int n) = Inr (of_int n)"
proof -
  have "\<bar>of_int n :: rat\<bar> = of_int \<bar>n\<bar>" by simp
  also have "\<dots> \<le> of_int (2 ^ 53)" using assms by (simp only: of_int_le_iff)
  also have "\<dots> = 2 powi 53" by simp
  finally have "to_double (of_int n) = Inr (round_double (of_int n))"
    by (rule to_double_in_range) simp_all
  then show ?thesis by (simp only: round_double_of_int [OF assms])
qed

lemma true_div_Inr: "true_div a b = Inr r \<Longrightarrow> b \<noteq> 0 \<and> r = round_double (of_int a / of_int b)"
  by (auto simp: true_div_def dest: to_double_Inr split: if_splits)

lemma freq_at_InrE:
  assumes "freq_at start minimum fspan n idx = Inr v"
  obtains fr sf sc st df where
    "true_div (int idx) (int n - 1) = Inr fr"
    "to_double (of_int fspan) = Inr sf"
    "to_double (fr * sf) = Inr sc"
    "to_double (of_int start) = Inr st"
    "to_double (st - sc) = Inr df"
    "v = max minimum (half_even df)"
  using assms unfolding freq_at_def by (auto split: sum.splits)

lemma freq_at_InrI:
  assumes "true_div (int idx) (int n - 1) = Inr fr"
    and "to_double (of_int fspan) = Inr sf"
    and "to_double (fr * sf) = Inr sc"
    and "to_double (of_int start) = Inr st"
    and "to_double (st - sc) = Inr df"
  shows "freq_at start minimum fspan n idx = Inr (max minimum (half_even df))"
  unfolding freq_at_def by (simp add: assms)

lemma fraction_range:
  assumes "1 < n" and "idx < n"
  shows "true_div (int idx) (int n - 1) = Inr (round_double (of_int (int idx) / of_int (int n - 1)))"
    and "0 \<le> round_double (of_int (int idx) / of_int (int n - 1))"
    and "round_double (of_int (int idx) / of_int (int n - 1)) \<le> 1"
proof -
  let ?x = "of_int (int idx) / of_int (int n - 1) :: rat"
  from assms have x: "0 \<le> ?x" "?x \<le> 1" by simp_all
  then have "\<bar>?x\<bar> \<le> 2 powi 0" by (simp only: abs_of_nonneg power_int_0_right)
  then have "to_double ?x = Inr (round_double ?x)"
    by (rule to_double_in_range) simp_all
  with assms(1) show "true_div (int idx) (int n - 1) = Inr (round_double ?x)"
    by (simp add: true_div_def)
  show "0 \<le> round_double ?x" using x(1) by (rule round_double_nonneg)
  have "round_double ?x \<le> round_double 1"
    using x(2) by (rule round_double_mono)
  then show "round_double ?x \<le> 1"
    by (simp only: round_double_one)
qed

lemma freq_at_mono:
  assumes "1 < n" and "i \<le> j" and "0 \<le> fspan"
    and "freq_at start minimum fspan n i = Inr u"
    and "freq_at start minimum fspan n j = Inr v"
  shows "v \<le> u"
proof -
  from assms(4) obtain fi sfi sci sti dfi where
    i: "true_div (int i) (int n - 1) = Inr fi" "to_double (of_int fspan) = Inr sfi"
       "to_double (fi * sfi) = Inr sci" "to_double (of_int start) = Inr sti"
       "to_double (sti - sci) = Inr dfi" "u = max minimum (half_even dfi)"
    by (rule freq_at_InrE)
  from assms(5) obtain fj sfj scj stj dfj where
    j: "true_div (int j) (int n - 1) = Inr fj" "to_double (of_int fspan) = Inr sfj"
       "to_double (fj * sfj) = Inr scj" "to_double (of_int start) = Inr stj"
       "to_double (stj - scj) = Inr dfj" "v = max minimum (half_even dfj)"
    by (rule freq_at_InrE)
  from i(2) j(2) have sf: "sfj = sfi" by simp
  from i(4) j(4) have st: "stj = sti" by simp
  have sf0: "0 \<le> sfi"
    using to_double_Inr [OF i(2)] assms(3) by (simp add: round_double_nonneg)
  have "(of_int (int i) :: rat) / of_int (int n - 1) \<le> of_int (int j) / of_int (int n - 1)"
    using assms(1,2) by (simp add: divide_right_mono)
  then have "fi \<le> fj"
    using true_div_Inr [OF i(1)] true_div_Inr [OF j(1)] by (simp add: round_double_mono)
  then have "fi * sfi \<le> fj * sfi" using sf0 by (rule mult_right_mono)
  then have "sci \<le> scj"
    using to_double_Inr [OF i(3)] to_double_Inr [OF j(3)] by (simp add: sf round_double_mono)
  then have "sti - scj \<le> sti - sci" by simp
  then have "dfj \<le> dfi"
    using to_double_Inr [OF i(5)] to_double_Inr [OF j(5)] by (simp add: st round_double_mono)
  then have "half_even dfj \<le> half_even dfi" by (rule half_even_mono)
  then show ?thesis by (simp add: i(6) j(6) max.coboundedI2)
qed

lemma of_int_abs_le_two_powi:
  assumes "\<bar>n\<bar> \<le> 2 ^ k"
  shows "\<bar>of_int n :: rat\<bar> \<le> 2 powi int k"
proof -
  have "\<bar>of_int n :: rat\<bar> = of_int \<bar>n\<bar>" by simp
  also have "\<dots> \<le> of_int (2 ^ k)" using assms by (simp only: of_int_le_iff)
  also have "\<dots> = 2 powi int k" by simp
  finally show ?thesis .
qed

lemma freq_at_returns:
  assumes "1 < n" and "idx < n"
    and "\<bar>of_int start :: rat\<bar> \<le> 2 powi k" and "\<bar>of_int fspan :: rat\<bar> \<le> 2 powi (k + 1)"
    and "0 \<le> k" and "k < 1022"
  shows "\<exists>v. freq_at start minimum fspan n idx = Inr v"
proof -
  define fr where "fr = round_double (of_int (int idx) / of_int (int n - 1))"
  define sf where "sf = round_double (of_int fspan)"
  define sc where "sc = round_double (fr * sf)"
  define st where "st = round_double (of_int start)"
  have fr: "true_div (int idx) (int n - 1) = Inr fr" "0 \<le> fr" "fr \<le> 1"
    unfolding fr_def by (rule fraction_range [OF assms(1,2)])+
  have sf: "to_double (of_int fspan) = Inr sf"
    unfolding sf_def using assms(4) by (rule to_double_in_range) (use assms(5,6) in simp_all)
  have sfb: "\<bar>sf\<bar> \<le> 2 powi (k + 1)"
    unfolding sf_def using assms(4) by (rule round_double_bound) (use assms(5) in simp)
  have "\<bar>fr * sf\<bar> = fr * \<bar>sf\<bar>" using fr(2) by (simp add: abs_mult)
  also have "\<dots> \<le> 1 * \<bar>sf\<bar>" using fr(3) by (intro mult_right_mono) simp_all
  finally have pb: "\<bar>fr * sf\<bar> \<le> 2 powi (k + 1)" using sfb by simp
  then have sc: "to_double (fr * sf) = Inr sc"
    unfolding sc_def by (rule to_double_in_range) (use assms(5,6) in simp_all)
  have scb: "\<bar>sc\<bar> \<le> 2 powi (k + 1)"
    unfolding sc_def using pb by (rule round_double_bound) (use assms(5) in simp)
  have st: "to_double (of_int start) = Inr st"
    unfolding st_def using assms(3) by (rule to_double_in_range) (use assms(5,6) in simp_all)
  have stb: "\<bar>st\<bar> \<le> 2 powi k"
    unfolding st_def using assms(3) by (rule round_double_bound) (use assms(5) in simp)
  have "\<bar>st - sc\<bar> \<le> \<bar>st\<bar> + \<bar>sc\<bar>" by simp
  also have "\<dots> \<le> 2 powi k + 2 powi (k + 1)" using stb scb by simp
  also have "\<dots> \<le> 2 powi (k + 2)" by (simp add: power_int_add)
  finally have "to_double (st - sc) = Inr (round_double (st - sc))"
    by (rule to_double_in_range) (use assms(5,6) in simp_all)
  from freq_at_InrI [OF fr(1) sf sc st this] show ?thesis by blast
qed

lemma true_div_zero: "1 < n \<Longrightarrow> true_div (int 0) (int n - 1) = Inr 0"
  using fraction_range(1) [of n 0] by (simp add: round_double_zero)

lemma true_div_last: "1 < n \<Longrightarrow> true_div (int (n - 1)) (int n - 1) = Inr 1"
proof -
  assume n: "1 < n"
  then have "(of_int (int (n - 1)) :: rat) / of_int (int n - 1) = 1"
    by (simp add: of_nat_diff)
  with fraction_range(1) [of n "n - 1"] n show ?thesis
    by (simp only: round_double_one)
qed

lemma to_double_zero: "to_double 0 = Inr 0"
  using to_double_of_int [of 0] by simp

lemma freq_at_first:
  assumes "1 < n" and "\<bar>start\<bar> \<le> 2 ^ 53" and "\<bar>fspan\<bar> \<le> 2 ^ 54"
  shows "freq_at start minimum fspan n 0 = Inr (max minimum start)"
proof -
  have "\<bar>of_int fspan :: rat\<bar> \<le> 2 powi int 54"
    using assms(3) by (rule of_int_abs_le_two_powi)
  then have sf: "to_double (of_int fspan) = Inr (round_double (of_int fspan))"
    by (rule to_double_in_range) simp_all
  have sc: "to_double (0 * round_double (of_int fspan)) = Inr 0"
    by (simp add: to_double_zero)
  have st: "to_double (of_int start) = Inr (of_int start)"
    using assms(2) by (rule to_double_of_int)
  have df: "to_double (of_int start - 0) = Inr (of_int start)"
    using st by simp
  from freq_at_InrI [OF true_div_zero [OF assms(1)] sf sc st df, of minimum]
  show ?thesis by (simp only: half_even_of_int)
qed

lemma freq_at_last:
  assumes "1 < n" and "\<bar>start\<bar> \<le> 2 ^ 53" and "\<bar>fspan\<bar> \<le> 2 ^ 53"
    and "\<bar>start - fspan\<bar> \<le> 2 ^ 53"
  shows "freq_at start minimum fspan n (n - 1) = Inr (max minimum (start - fspan))"
proof -
  have sf: "to_double (of_int fspan) = Inr (of_int fspan)"
    using assms(3) by (rule to_double_of_int)
  have sc: "to_double (1 * of_int fspan) = Inr (of_int fspan)"
    using sf by simp
  have st: "to_double (of_int start) = Inr (of_int start)"
    using assms(2) by (rule to_double_of_int)
  have df: "to_double (of_int start - of_int fspan) = Inr (of_int (start - fspan))"
    using to_double_of_int [OF assms(4)] by simp
  from freq_at_InrI [OF true_div_last [OF assms(1)] sf sc st df, of minimum]
  show ?thesis by (simp only: half_even_of_int)
qed

lemma freq_at_clamped:
  assumes "1 < n" and "idx < n" and "fspan \<le> 0"
    and "\<bar>start\<bar> \<le> 2 ^ 53" and "\<bar>fspan\<bar> \<le> 2 ^ 53" and "\<bar>start - fspan\<bar> \<le> 2 ^ 53"
    and "start - fspan \<le> minimum"
  shows "freq_at start minimum fspan n idx = Inr minimum"
proof -
  define fr where "fr = round_double (of_int (int idx) / of_int (int n - 1))"
  define sc where "sc = round_double (fr * of_int fspan)"
  define df where "df = round_double (of_int start - sc)"
  have fr: "true_div (int idx) (int n - 1) = Inr fr" "0 \<le> fr" "fr \<le> 1"
    unfolding fr_def by (rule fraction_range [OF assms(1,2)])+
  have sf: "to_double (of_int fspan) = Inr (of_int fspan)"
    using assms(5) by (rule to_double_of_int)
  have s0: "(of_int fspan :: rat) \<le> 0" using assms(3) by simp
  have p1: "fr * of_int fspan \<le> 0"
    using fr(2) s0 by (rule mult_nonneg_nonpos)
  have "1 * (of_int fspan :: rat) \<le> fr * of_int fspan"
    using fr(3) s0 by (rule mult_right_mono_neg)
  then have p2: "of_int fspan \<le> fr * of_int fspan" by simp
  have "round_double (of_int fspan) \<le> sc" "sc \<le> round_double 0"
    unfolding sc_def using p1 p2 by (simp_all only: round_double_mono)
  then have scr: "of_int fspan \<le> sc" "sc \<le> 0"
    by (simp_all only: round_double_of_int [OF assms(5)] round_double_zero)
  have "\<bar>fr * of_int fspan\<bar> \<le> \<bar>of_int fspan :: rat\<bar>" using p1 p2 by linarith
  also have "\<dots> \<le> 2 powi int 53" using assms(5) by (rule of_int_abs_le_two_powi)
  finally have sc: "to_double (fr * of_int fspan) = Inr sc"
    unfolding sc_def by (rule to_double_in_range) simp_all
  have st: "to_double (of_int start) = Inr (of_int start)"
    using assms(4) by (rule to_double_of_int)
  have d1: "of_int start \<le> of_int start - sc" and d2: "of_int start - sc \<le> of_int (start - fspan)"
    using scr by simp_all
  have "- (2 powi int 53) \<le> (of_int start :: rat)"
    using of_int_abs_le_two_powi [OF assms(4)] by linarith
  moreover have "(of_int (start - fspan) :: rat) \<le> 2 powi int 53"
    using of_int_abs_le_two_powi [OF assms(6)] by linarith
  ultimately have "\<bar>of_int start - sc\<bar> \<le> 2 powi int 53"
    using d1 d2 by linarith
  then have df: "to_double (of_int start - sc) = Inr df"
    unfolding df_def by (rule to_double_in_range) simp_all
  have "df \<le> round_double (of_int (start - fspan))"
    unfolding df_def using d2 by (rule round_double_mono)
  then have "df \<le> of_int (start - fspan)"
    by (simp only: round_double_of_int [OF assms(6)])
  then have "half_even df \<le> start - fspan"
    using half_even_mono half_even_of_int by metis
  with assms(7) have "max minimum (half_even df) = minimum" by simp
  with freq_at_InrI [OF fr(1) sf sc st df, of minimum] show ?thesis by simp
qed

lemma freq_loop_map:
  "\<forall>i\<in>set idxs. f i = Inr (g i) \<Longrightarrow> freq_loop f idxs = Inr (map g idxs)"
  by (induction idxs) simp_all

lemma freq_loop_nth:
  "freq_loop f idxs = Inr vs \<Longrightarrow>
     length vs = length idxs \<and> (\<forall>k<length idxs. f (idxs ! k) = Inr (vs ! k))"
proof (induction idxs arbitrary: vs)
  case Nil
  then show ?case by simp
next
  case (Cons i idxs)
  from Cons.prems obtain v rest where
    v: "f i = Inr v" and r: "freq_loop f idxs = Inr rest" and vs: "vs = v # rest"
    by (auto split: sum.splits)
  from Cons.IH [OF r] v show ?case
    by (auto simp: vs nth_Cons split: nat.splits)
qed

lemma freq_loop_returns:
  assumes "\<forall>i\<in>set idxs. \<exists>v. f i = Inr v"
  shows "\<exists>vs. freq_loop f idxs = Inr vs"
proof -
  from assms have "\<forall>i\<in>set idxs. f i = Inr (projr (f i))" by auto
  then have "freq_loop f idxs = Inr (map (\<lambda>i. projr (f i)) idxs)" by (rule freq_loop_map)
  then show ?thesis ..
qed

lemma assign_frequencies_loop:
  "1 < length words \<Longrightarrow>
     assign_frequencies words start minimum =
       freq_loop (freq_at start minimum (start - minimum) (length words)) [0..<length words]"
  by (auto simp: assign_frequencies_def Let_def)

lemma to_double_54:
  assumes "2 ^ 53 \<le> \<bar>n\<bar>" and "\<bar>n\<bar> < 2 ^ 54"
  shows "to_double (of_int n) = Inr (of_int (2 * half_even (of_int n / 2)))"
proof -
  have a: "\<bar>of_int n :: rat\<bar> = of_int \<bar>n\<bar>" by simp
  have "(2::rat) powi 53 = of_int (2 ^ 53)" by simp
  also have "\<dots> \<le> of_int \<bar>n\<bar>" using assms(1) by (simp only: of_int_le_iff)
  finally have lo: "2 powi 53 \<le> \<bar>of_int n :: rat\<bar>" by (simp only: a)
  have "(of_int \<bar>n\<bar> :: rat) < of_int (2 ^ 54)" using assms(2) by (simp only: of_int_less_iff)
  also have "\<dots> = 2 powi (53 + 1)" by simp
  finally have hi: "\<bar>of_int n :: rat\<bar> < 2 powi (53 + 1)" by (simp only: a)
  from assms(1) have "(of_int n :: rat) \<noteq> 0" by auto
  from round_double_eq [OF this lo hi]
  have r: "round_double (of_int n) = of_int (2 * half_even (of_int n / 2))" by simp
  from hi have "\<bar>of_int n :: rat\<bar> \<le> 2 powi 54" by simp
  then have "to_double (of_int n) = Inr (round_double (of_int n))"
    by (rule to_double_in_range) simp_all
  then show ?thesis by (simp only: r)
qed

lemma half_even_half:
  "half_even (of_int n / 2) =
     (if even n then n div 2 else if even (n div 2) then n div 2 else n div 2 + 1)"
proof -
  have f: "\<lfloor>(of_int n :: rat) / 2\<rfloor> = n div 2"
    using floor_divide_of_int_eq [of n 2, where ?'a = rat] by simp
  have d: "(of_int n :: rat) / 2 - of_int (n div 2) = of_int (n mod 2) / 2"
  proof -
    have "(of_int n :: rat) = of_int (2 * (n div 2) + n mod 2)" by simp
    also have "\<dots> = 2 * of_int (n div 2) + of_int (n mod 2)"
      by (simp only: of_int_add of_int_mult of_int_numeral)
    finally show ?thesis by (simp add: field_simps)
  qed
  show ?thesis
  proof (cases "even n")
    case True
    then have "n mod 2 = 0" by presburger
    with d have "(of_int n :: rat) / 2 - of_int (n div 2) = 0" by simp
    with True show ?thesis by (simp add: half_even_def Let_def f)
  next
    case False
    then have "n mod 2 = 1" by presburger
    with d have "(of_int n :: rat) / 2 - of_int (n div 2) = 1 / 2" by simp
    with False show ?thesis by (simp add: half_even_def Let_def f)
  qed
qed

lemma half_even_numeral: "half_even (numeral k) = numeral k"
  using half_even_of_int [of "numeral k"] by simp

lemma to_double_half: "to_double (1 / 2) = Inr (1 / 2)"
proof -
  have "\<bar>1 / 2 :: rat\<bar> \<le> 2 powi 0" by simp
  then have "to_double (1 / 2) = Inr (round_double (1 / 2))"
    by (rule to_double_in_range) simp_all
  moreover have "round_double (1 / 2) = 1 / 2"
    using round_double_two_powi [of "- 1"] by (simp add: power_int_minus)
  ultimately show ?thesis by simp
qed

lemma assign_example:
  "assign_frequencies [w1, w2, w3] 100 10 = Inr [100, 55, 10]"
proof -
  have f0: "freq_at 100 10 90 3 0 = Inr 100"
    using freq_at_first [of 3 100 90 10] by simp
  have f2: "freq_at 100 10 90 3 2 = Inr 10"
    using freq_at_last [of 3 100 90 10] by simp
  have fr: "true_div (int 1) (int 3 - 1) = Inr (1 / 2)"
    by (simp add: true_div_def to_double_half)
  have sf: "to_double (of_int 90) = Inr 90"
    using to_double_of_int [of 90] by simp
  have sc: "to_double (1 / 2 * 90) = Inr 45"
    using to_double_of_int [of 45] by simp
  have st: "to_double (of_int 100) = Inr 100"
    using to_double_of_int [of 100] by simp
  have df: "to_double (100 - 45) = Inr (of_int 55)"
    using to_double_of_int [of 55] by simp
  have f1: "freq_at 100 10 90 3 1 = Inr 55"
    using freq_at_InrI [OF fr sf sc st df, of 10] by (simp only: half_even_of_int) simp
  have u: "[0..<3] = [0, 1, 2]" by (simp add: upt_rec)
  have "assign_frequencies [w1, w2, w3] 100 10 =
      freq_loop (freq_at 100 10 (100 - 10) (length [w1, w2, w3])) [0..<length [w1, w2, w3]]"
    by (rule assign_frequencies_loop) simp
  also have "length [w1, w2, w3] = 3" by simp
  also have "(100::int) - 10 = 90" by simp
  finally show ?thesis
    by (simp only: u freq_loop.simps f0 f1 f2 sum.case)
qed

lemma assign_two_words:
  assumes "\<bar>start\<bar> \<le> 2 ^ 53" and "\<bar>start - minimum\<bar> \<le> 2 ^ 53" and "\<bar>minimum\<bar> \<le> 2 ^ 53"
  shows "assign_frequencies [w1, w2] start minimum = Inr [max minimum start, minimum]"
proof -
  have f0: "freq_at start minimum (start - minimum) 2 0 = Inr (max minimum start)"
    using assms by (intro freq_at_first) simp_all
  have f1: "freq_at start minimum (start - minimum) 2 1 = Inr minimum"
    using freq_at_last [of 2 start "start - minimum" minimum] assms by simp
  have u: "[0..<2] = [0, 1]" by (simp add: upt_rec)
  have "assign_frequencies [w1, w2] start minimum =
      freq_loop (freq_at start minimum (start - minimum) (length [w1, w2])) [0..<length [w1, w2]]"
    by (rule assign_frequencies_loop) simp
  also have "length [w1, w2] = 2" by simp
  finally show ?thesis
    by (simp only: u freq_loop.simps f0 f1 sum.case)
qed

lemma assign_inverted: "assign_frequencies [w1, w2] 10 20 = Inr [20, 20]"
  using assign_two_words [of 10 20 w1 w2] by simp

lemma assign_wide_span:
  "assign_frequencies [w1, w2] 9007199254740992 (- 1) = Inr [9007199254740992, 0]"
proof -
  have f0: "freq_at 9007199254740992 (- 1) 9007199254740993 2 0 = Inr 9007199254740992"
    using freq_at_first [of 2 9007199254740992 9007199254740993 "- 1"] by simp
  have fr: "true_div (int (2 - 1)) (int 2 - 1) = Inr 1"
    by (rule true_div_last) simp
  have h: "half_even (9007199254740993 / 2) = 4503599627370496"
    using half_even_half [of 9007199254740993] by simp
  have sf: "to_double (of_int 9007199254740993) = Inr 9007199254740992"
    using to_double_54 [of 9007199254740993] by (simp add: h)
  have sc: "to_double (1 * 9007199254740992) = Inr 9007199254740992"
    using to_double_of_int [of 9007199254740992] by simp
  have st: "to_double (of_int 9007199254740992) = Inr 9007199254740992"
    using to_double_of_int [of 9007199254740992] by simp
  have df: "to_double (9007199254740992 - 9007199254740992) = Inr (of_int 0)"
    by (simp add: to_double_zero)
  have f1: "freq_at 9007199254740992 (- 1) 9007199254740993 2 1 = Inr 0"
    using freq_at_InrI [OF fr sf sc st df, of "- 1"] by (simp only: half_even_of_int) simp
  have u: "[0..<2] = [0, 1]" by (simp add: upt_rec)
  have "assign_frequencies [w1, w2] 9007199254740992 (- 1) =
      freq_loop (freq_at 9007199254740992 (- 1) (9007199254740992 - (- 1)) (length [w1, w2]))
        [0..<length [w1, w2]]"
    by (rule assign_frequencies_loop) simp
  also have "length [w1, w2] = 2" by simp
  also have "(9007199254740992::int) - (- 1) = 9007199254740993" by simp
  finally show ?thesis
    by (simp only: u freq_loop.simps f0 f1 sum.case)
qed

lemma assign_large_floor:
  "assign_frequencies [w1, w2] 0 9007199254740995 = Inr [9007199254740995, 9007199254740996]"
proof -
  have f0: "freq_at 0 9007199254740995 (- 9007199254740995) 2 0 = Inr 9007199254740995"
    using freq_at_first [of 2 0 "- 9007199254740995" 9007199254740995] by simp
  have fr: "true_div (int (2 - 1)) (int 2 - 1) = Inr 1"
    by (rule true_div_last) simp
  have h: "half_even (- (9007199254740995 / 2)) = - 4503599627370498"
    using half_even_half [of 9007199254740995] by (simp add: half_even_minus)
  have sf: "to_double (of_int (- 9007199254740995)) = Inr (- 9007199254740996)"
    using to_double_54 [of "- 9007199254740995"] by (simp add: h)
  have h2: "half_even (- 4503599627370498) = - 4503599627370498"
    by (simp add: half_even_minus half_even_numeral)
  have sc: "to_double (1 * (- 9007199254740996)) = Inr (- 9007199254740996)"
    using to_double_54 [of "- 9007199254740996"] by (simp add: h2)
  have st: "to_double (of_int 0) = Inr 0"
    by (simp add: to_double_zero)
  have h3: "half_even 4503599627370498 = 4503599627370498"
    by (rule half_even_numeral)
  have df: "to_double (0 - (- 9007199254740996)) = Inr (of_int 9007199254740996)"
    using to_double_54 [of 9007199254740996] by (simp add: h3)
  have f1: "freq_at 0 9007199254740995 (- 9007199254740995) 2 1 = Inr 9007199254740996"
    using freq_at_InrI [OF fr sf sc st df, of 9007199254740995]
    by (simp only: half_even_of_int) simp
  have u: "[0..<2] = [0, 1]" by (simp add: upt_rec)
  have "assign_frequencies [w1, w2] 0 9007199254740995 =
      freq_loop (freq_at 0 9007199254740995 (0 - 9007199254740995) (length [w1, w2]))
        [0..<length [w1, w2]]"
    by (rule assign_frequencies_loop) simp
  also have "length [w1, w2] = 2" by simp
  also have "(0::int) - 9007199254740995 = - 9007199254740995" by simp
  finally show ?thesis
    by (simp only: u freq_loop.simps f0 f1 sum.case)
qed

lemma int_span_bound:
  assumes "\<bar>start\<bar> \<le> 2 ^ k" and "\<bar>minimum\<bar> \<le> 2 ^ k"
  shows "\<bar>start - minimum\<bar> \<le> (2::int) ^ Suc k"
  using assms by simp

lemma frequencies_exist:
  assumes "1 < length words" and "\<bar>start\<bar> \<le> 2 ^ 1000" and "\<bar>minimum\<bar> \<le> 2 ^ 1000"
  shows "\<exists>fs. assign_frequencies words start minimum = Inr fs \<and> length fs = length words"
proof -
  define n where "n = length words"
  have s: "\<bar>of_int start :: rat\<bar> \<le> 2 powi 1000"
    using of_int_abs_le_two_powi [OF assms(2)] by simp
  have "\<bar>of_int (start - minimum) :: rat\<bar> \<le> 2 powi int (Suc 1000)"
    by (rule of_int_abs_le_two_powi [OF int_span_bound [OF assms(2,3)]])
  then have d: "\<bar>of_int (start - minimum) :: rat\<bar> \<le> 2 powi (1000 + 1)" by simp
  have "\<forall>i\<in>set [0..<n]. \<exists>v. freq_at start minimum (start - minimum) n i = Inr v"
  proof
    fix i assume "i \<in> set [0..<n]"
    then have "i < n" by simp
    with assms(1) show "\<exists>v. freq_at start minimum (start - minimum) n i = Inr v"
      by (intro freq_at_returns [OF _ _ s d]) (simp_all add: n_def)
  qed
  then obtain fs where fs: "freq_loop (freq_at start minimum (start - minimum) n) [0..<n] = Inr fs"
    using freq_loop_returns by blast
  from freq_loop_nth [OF this] have "length fs = n" by simp
  with fs assms(1) show ?thesis
    by (simp add: assign_frequencies_loop n_def)
qed

text \<open>
  Claim C5, as stated, fails: with \<open>start = 0\<close> and the floor \<open>2^53 + 3\<close>, which is not a
  double, the last frequency is \<open>2^53 + 4\<close> and exceeds the first, which is the floor.
\<close>

theorem frequencies_increase_large_floor:
  "assign_frequencies [[3246, 3240, 3270], [3221, 3270, 3250, 3256 :: nat]] 0 9007199254740995
     = Inr [9007199254740995, 9007199254740996] \<and>
   \<not> sorted_wrt (\<lambda>a b. b \<le> a) [9007199254740995, 9007199254740996 :: int]"
  by (simp add: assign_large_floor)

text \<open>
  Claim C5, amended. For a word sequence of length \<open>L > 1\<close>: when
  \<open>min_frequency \<le> start_frequency\<close>, the frequencies that \<^verbatim>\<open>assign_frequencies\<close>
  returns are non-increasing in emission order; it does return when both parameters are
  at most \<open>2^1000\<close> in magnitude (beyond the range of the doubles the float arithmetic
  raises \<^verbatim>\<open>OverflowError\<close>). When \<open>min_frequency > start_frequency\<close> and the two
  parameters and their difference are at most \<open>2^53\<close> in magnitude, every frequency is
  \<open>min_frequency\<close>.
\<close>

theorem frequencies_nonincreasing:
  assumes "1 < length words"
  shows "(minimum \<le> start \<longrightarrow>
            (\<forall>fs. assign_frequencies words start minimum = Inr fs \<longrightarrow>
                  sorted_wrt (\<lambda>a b. b \<le> a) fs)) \<and>
         (\<bar>start\<bar> \<le> 2 ^ 1000 \<and> \<bar>minimum\<bar> \<le> 2 ^ 1000 \<longrightarrow>
            (\<exists>fs. assign_frequencies words start minimum = Inr fs \<and> length fs = length words)) \<and>
         (start < minimum \<and> \<bar>start\<bar> \<le> 2 ^ 53 \<and> \<bar>minimum\<bar> \<le> 2 ^ 53 \<and>
          minimum - start \<le> 2 ^ 53 \<longrightarrow>
            assign_frequencies words start minimum = Inr (replicate (length words) minimum))"
proof (intro conjI impI allI)
  fix fs
  assume le: "minimum \<le> start" and r: "assign_frequencies words start minimum = Inr fs"
  define n where "n = length words"
  from r assms have "freq_loop (freq_at start minimum (start - minimum) n) [0..<n] = Inr fs"
    by (simp add: assign_frequencies_loop n_def)
  from freq_loop_nth [OF this]
  have len: "length fs = n"
    and at: "\<And>k. k < n \<Longrightarrow> freq_at start minimum (start - minimum) n k = Inr (fs ! k)"
    by simp_all
  show "sorted_wrt (\<lambda>a b. b \<le> a) fs"
    unfolding sorted_wrt_iff_nth_less
  proof (intro allI impI)
    fix i j assume ij: "i < j" "j < length fs"
    then have o: "i \<le> j" and "i < n" and "j < n" using len by simp_all
    then have fi: "freq_at start minimum (start - minimum) n i = Inr (fs ! i)"
      and fj: "freq_at start minimum (start - minimum) n j = Inr (fs ! j)"
      by (simp_all add: at)
    have n1: "1 < n" using assms by (simp add: n_def)
    have s0: "0 \<le> start - minimum" using le by simp
    from freq_at_mono [OF n1 o s0 fi fj] show "fs ! j \<le> fs ! i" .
  qed
next
  assume "\<bar>start\<bar> \<le> 2 ^ 1000 \<and> \<bar>minimum\<bar> \<le> 2 ^ 1000"
  with assms show "\<exists>fs. assign_frequencies words start minimum = Inr fs \<and> length fs = length words"
    by (intro frequencies_exist) simp_all
next
  assume a: "start < minimum \<and> \<bar>start\<bar> \<le> 2 ^ 53 \<and> \<bar>minimum\<bar> \<le> 2 ^ 53 \<and> minimum - start \<le> 2 ^ 53"
  define n where "n = length words"
  have "\<forall>i\<in>set [0..<n]. freq_at start minimum (start - minimum) n i = Inr ((\<lambda>_. minimum) i)"
  proof
    fix i assume "i \<in> set [0..<n]"
    then have "i < n" by simp
    with assms a show "freq_at start minimum (start - minimum) n i = Inr ((\<lambda>_. minimum) i)"
      by (intro freq_at_clamped) (simp_all add: n_def)
  qed
  then have "freq_loop (freq_at start minimum (start - minimum) n) [0..<n]
      = Inr (map (\<lambda>_. minimum) [0..<n])"
    by (rule freq_loop_map)
  with assms show "assign_frequencies words start minimum = Inr (replicate (length words) minimum)"
    by (simp add: assign_frequencies_loop n_def map_replicate_const)
qed

theorem frequencies_nonincreasing_witness:
  "1 < length [[3246, 3240, 3270], [3221, 3270, 3250, 3256], [3205, 3238, 3265 :: nat]] \<and>
   (10::int) \<le> 100 \<and>
   assign_frequencies [[3246, 3240, 3270], [3221, 3270, 3250, 3256], [3205, 3238, 3265 :: nat]] 100 10
     = Inr [100, 55, 10] \<and>
   sorted_wrt (\<lambda>a b. b \<le> a) [100, 55, 10 :: int] \<and>
   (20::int) < 30 \<and>
   assign_frequencies [[3246, 3240, 3270], [3221, 3270, 3250, 3256], [3205, 3238, 3265 :: nat]] 20 30
     = Inr [30, 30, 30]"
proof -
  let ?w = "[[3246, 3240, 3270], [3221, 3270, 3250, 3256], [3205, 3238, 3265 :: nat]]"
  have l: "1 < length ?w" by simp
  note t = frequencies_nonincreasing [OF l]
  have e: "assign_frequencies ?w 100 10 = Inr [100, 55, 10]" by (rule assign_example)
  from t [of 10 100] e have s: "sorted_wrt (\<lambda>a b. b \<le> a) [100, 55, 10 :: int]"
    by simp
  from t [of 30 20] have c: "assign_frequencies ?w 20 30 = Inr (replicate (length ?w) 30)"
    by simp
  have "replicate (length ?w) (30::int) = [30, 30, 30]"
    by (simp add: numeral_3_eq_3)
  with l e s c show ?thesis by simp
qed

text \<open>
  Claim C4, as stated, fails. With \<open>start_frequency = 10\<close> below
  \<open>min_frequency = 20\<close>, both of two words receive 20, so the first does not receive
  \<open>start_frequency\<close>. With \<open>start_frequency = 2^53\<close> and \<open>min_frequency = - 1\<close> the span
  \<open>2^53 + 1\<close> is not a double, and the last of two words receives 0, not
  \<open>min_frequency\<close>.
\<close>

theorem first_last_frequency_fails:
  "assign_frequencies [[3246, 3240, 3270], [3221, 3270, 3250, 3256 :: nat]] 10 20 = Inr [20, 20] \<and>
   assign_frequencies [[3246, 3240, 3270], [3221, 3270, 3250, 3256 :: nat]] 9007199254740992 (- 1)
     = Inr [9007199254740992, 0]"
  by (simp only: assign_inverted assign_wide_span simp_thms)

text \<open>
  Claim C4, amended. A single word receives \<open>start_frequency\<close>, for all integer
  parameters. In a sequence of more than one word, the first position receives
  \<open>start_frequency\<close> and the last receives \<open>min_frequency\<close> when
  \<open>min_frequency \<le> start_frequency\<close> and the two parameters and their difference are at
  most \<open>2^53\<close> in magnitude, so that the float arithmetic is exact at both ends.
\<close>

theorem first_and_last_frequency:
  "(length words = 1 \<longrightarrow> assign_frequencies words start minimum = Inr [start]) \<and>
   (1 < length words \<and> minimum \<le> start \<and>
    \<bar>start\<bar> \<le> 2 ^ 53 \<and> \<bar>minimum\<bar> \<le> 2 ^ 53 \<and> start - minimum \<le> 2 ^ 53 \<longrightarrow>
      (\<exists>fs. assign_frequencies words start minimum = Inr fs \<and> length fs = length words \<and>
            fs ! 0 = start \<and> fs ! (length words - 1) = minimum))"
proof (intro conjI impI)
  assume "length words = 1"
  then show "assign_frequencies words start minimum = Inr [start]"
    by (auto simp: assign_frequencies_def)
next
  assume a: "1 < length words \<and> minimum \<le> start \<and>
    \<bar>start\<bar> \<le> 2 ^ 53 \<and> \<bar>minimum\<bar> \<le> 2 ^ 53 \<and> start - minimum \<le> 2 ^ 53"
  define n where "n = length words"
  from a have n: "1 < n" by (simp add: n_def)
  from a have b: "\<bar>start\<bar> \<le> 2 ^ 1000" "\<bar>minimum\<bar> \<le> 2 ^ 1000"
    using power_increasing [of 53 1000 "2::int"] by simp_all
  have l: "1 < length words" using a by simp
  from frequencies_exist [OF l b] obtain fs where
    fs: "assign_frequencies words start minimum = Inr fs" and len: "length fs = n"
    by (auto simp: n_def)
  then have "freq_loop (freq_at start minimum (start - minimum) n) [0..<n] = Inr fs"
    using l by (simp add: assign_frequencies_loop n_def)
  from freq_loop_nth [OF this]
  have at: "\<And>k. k < n \<Longrightarrow> freq_at start minimum (start - minimum) n k = Inr (fs ! k)"
    by simp
  have "freq_at start minimum (start - minimum) n 0 = Inr (max minimum start)"
    using n a by (intro freq_at_first) simp_all
  with at [of 0] n a have first: "fs ! 0 = start" by simp
  have "freq_at start minimum (start - minimum) n (n - 1) = Inr (max minimum (start - (start - minimum)))"
    using n a by (intro freq_at_last) simp_all
  with at [of "n - 1"] n have last: "fs ! (n - 1) = minimum" by simp
  from fs len first last show "\<exists>fs. assign_frequencies words start minimum = Inr fs \<and>
      length fs = length words \<and> fs ! 0 = start \<and> fs ! (length words - 1) = minimum"
    by (simp add: n_def)
qed

theorem first_and_last_frequency_witness:
  "length [[3246, 3240, 3270 :: nat]] = 1 \<and>
   assign_frequencies [[3246, 3240, 3270 :: nat]] 5000 200 = Inr [5000] \<and>
   1 < length [[3246, 3240, 3270], [3221, 3270, 3250, 3256], [3205, 3238, 3265 :: nat]] \<and>
   (10::int) \<le> 100 \<and> \<bar>100::int\<bar> \<le> 2 ^ 53 \<and> \<bar>10::int\<bar> \<le> 2 ^ 53 \<and> (100::int) - 10 \<le> 2 ^ 53 \<and>
   (\<exists>fs. assign_frequencies [[3246, 3240, 3270], [3221, 3270, 3250, 3256], [3205, 3238, 3265 :: nat]]
           100 10 = Inr fs \<and> length fs = 3 \<and> fs ! 0 = 100 \<and> fs ! 2 = 10)"
  using first_and_last_frequency [of "[[3246, 3240, 3270 :: nat]]" 5000 200]
    first_and_last_frequency
      [of "[[3246, 3240, 3270], [3221, 3270, 3250, 3256], [3205, 3238, 3265 :: nat]]" 100 10]
  by (simp add: assign_example)

text \<open>
  Claim C3. Scenario A: with the counts 5, 3 and 5 for the three words, no seed word,
  \<open>target_count = 2\<close>, \<open>start_frequency = 100\<close> and \<open>min_frequency = 10\<close> (the other
  options at their defaults), the output is the two words of count 5, the shorter one
  first, with the frequencies 100 and 10.
\<close>

theorem scenario_a:
  "total_words (main_plan
      (default_args\<lparr>target_count := 2, start_frequency := 100, min_frequency := 10\<rparr>)
      [([3246, 3240, 3270], 5), ([3246, 3240, 3256, 3277, 3256, 3265], 3),
       ([3221, 3270, 3250, 3256], 5)] [])
     = [[3246, 3240, 3270], [3221, 3270, 3250, 3256]] \<and>
   assign_frequencies (total_words (main_plan
      (default_args\<lparr>target_count := 2, start_frequency := 100, min_frequency := 10\<rparr>)
      [([3246, 3240, 3270], 5), ([3246, 3240, 3256, 3277, 3256, 3265], 3),
       ([3221, 3270, 3250, 3256], 5)] []))
     (start_frequency (default_args\<lparr>target_count := 2, start_frequency := 100, min_frequency := 10\<rparr>))
     (min_frequency (default_args\<lparr>target_count := 2, start_frequency := 100, min_frequency := 10\<rparr>))
     = Inr [100, 10]"
proof -
  let ?a = "default_args\<lparr>target_count := 2, start_frequency := 100, min_frequency := 10\<rparr>"
  let ?c = "[([3246, 3240, 3270], 5), ([3246, 3240, 3256, 3277, 3256, 3265], 3),
       ([3221, 3270, 3250, 3256 :: nat], 5 :: int)]"
  let ?p = "main_plan ?a ?c []"
  have a: "seed_limit ?a = 600" "target_count ?a = 2" "min_length ?a = 2" "max_length ?a = 16"
    "start_frequency ?a = 100" "min_frequency ?a = 10"
    by (simp_all add: default_args_def)
  have s: "seed_words ?p = []"
    by (simp add: seed_words_main_plan slice_to_def)
  have ss: "seed_set ?p = {}"
    by (simp add: seed_set_main_plan s)
  have k: "keep ?p = 2"
    by (simp add: keep_main_plan ss a)
  have r: "ranked_words ?p = [[3246, 3240, 3270], [3221, 3270, 3250, 3256]]"
    by (simp add: ranked_words_main_plan ss k a filter_ranked_words_def slice_to_def less_eq_prod_def)
  have t: "total_words ?p = [[3246, 3240, 3270], [3221, 3270, 3250, 3256]]"
    by (simp add: total_words_main_plan s ss r a slice_to_def)
  have f: "assign_frequencies [[3246, 3240, 3270], [3221, 3270, 3250, 3256 :: nat]] 100 10
      = Inr [100, 10]"
    using assign_two_words [of 100 10] by simp
  show ?thesis
    by (simp only: t a f simp_thms)
qed

section \<open>Properties of the writer\<close>

lemma write_all_NoFault:
  "write_all NoFault chunks content = (Inr (), content @ concat chunks)"
  by (induction chunks arbitrary: content) simp_all

lemma write_all_OpenFails:
  "write_all OpenFails chunks content = (Inr (), content @ concat chunks)"
  by (induction chunks arbitrary: content) simp_all









end
